theory Spec2Isabelle
  imports Main "HOL-Library.Multiset" "HOL-Library.Char_ord"
begin

section \<open>Boxed values and type assertions\<close>

text \<open>
  The pipeline of package \<open>concurrent\<close> threads every payload through its channels as a
  Go \<open>any\<close> and asserts it back with \<open>x.(Input)\<close> in each worker and \<open>x.(Output)\<close> in the
  collector. The model is polymorphic in the universe \<open>'v\<close> of boxed values; the two type
  parameters of \<open>transformer[Input, Output]\<close> are the predicates telling on which boxed
  values the assertions succeed, together with the zero value of \<open>Output\<close> that
  \<open>make([]Output, n)\<close> fills a fresh slice with.
\<close>

record 'v typarams =
  Input :: "'v \<Rightarrow> bool"
  Output :: "'v \<Rightarrow> bool"
  zero :: "'v"

text \<open>
  A small concrete universe for closed examples: the nil interface value, strings and ints.
  For a non-interface type \<open>T\<close> the assertion \<open>x.(T)\<close> holds when the dynamic type of \<open>x\<close>
  is \<open>T\<close>; for the interface type \<open>any\<close> it holds when \<open>x\<close> is not nil.
\<close>

datatype any = Nil | Str string | Num int

datatype gotype = String_t | Int_t | Any_t

fun type_assert :: "gotype \<Rightarrow> any \<Rightarrow> bool" where
  "type_assert String_t (Str s) = True"
| "type_assert Int_t (Num n) = True"
| "type_assert Any_t (Str s) = True"
| "type_assert Any_t (Num n) = True"
| "type_assert t x = False"

fun zero_of :: "gotype \<Rightarrow> any" where
  "zero_of String_t = Str []"
| "zero_of Int_t = Num 0"
| "zero_of Any_t = Nil"

definition go_types :: "gotype \<Rightarrow> gotype \<Rightarrow> any typarams" where
  "go_types i out = \<lparr>Input = type_assert i, Output = type_assert out, zero = zero_of out\<rparr>"

type_synonym error = string

section \<open>Envelopes\<close>

record 'v IndexedItem =
  Index :: nat
  Item :: "'v"

record 'v IndexedItemWithError = "'v IndexedItem" +
  Err :: "error option"

record 'v ItemWithError =
  SItem :: "'v"
  SErr :: "error option"

section \<open>Transformer\<close>

record 'v transformer =
  types :: "'v typarams"
  workers :: int

definition NewTransformer :: "'v typarams \<Rightarrow> int \<Rightarrow> 'v transformer" where
  "NewTransformer tp w = \<lparr>types = tp, workers = w\<rparr>"

section \<open>Goroutines and channels\<close>

text \<open>
  A channel is its buffer, its capacity and whether it has been closed. A worker is at the
  head of its \<open>for ... range inputChan\<close> loop (\<open>Recv\<close>), holds a computed envelope at
  \<open>outputChan <- ...\<close> (\<open>Send\<close>), or has left the loop and run \<open>wg.Done()\<close> (\<open>Exited\<close>).
\<close>

record 'e chan =
  buf :: "'e list"
  cap :: nat
  closed :: bool

datatype 'e wstate = Recv | Send 'e | Exited

datatype sink_action = Take | Halt | Crash

text \<open>
  The whole pipeline of one call: the feeder goroutine still has \<open>feed\<close> to send into channel
  0; pool \<open>k\<close> reads channel \<open>k\<close> and writes channel \<open>k + 1\<close>; the terminal consumer (the
  collecting loop of the caller, or the forwarding goroutine of the channel API) reads the
  last channel and has received \<open>got\<close> so far, in arrival order.
\<close>

record 'e net =
  feed :: "'e list"
  chans :: "'e chan list"
  pools :: "'e wstate list list"
  got :: "'e list"
  sink_done :: bool
  panicked :: bool

definition new_chan :: "nat \<Rightarrow> 'e chan" where
  "new_chan c = \<lparr>buf = [], cap = c, closed = False\<rparr>"

definition set_worker :: "nat \<Rightarrow> nat \<Rightarrow> 'e wstate \<Rightarrow> 'e net \<Rightarrow> 'e net" where
  "set_worker k j w s = s\<lparr>pools := (pools s)[k := (pools s ! k)[j := w]]\<rparr>"

definition set_buf :: "nat \<Rightarrow> 'e list \<Rightarrow> 'e net \<Rightarrow> 'e net" where
  "set_buf k b s = s\<lparr>chans := (chans s)[k := (chans s ! k)\<lparr>buf := b\<rparr>]\<rparr>"

definition close_chan :: "nat \<Rightarrow> 'e net \<Rightarrow> 'e net" where
  "close_chan k s = s\<lparr>chans := (chans s)[k := (chans s ! k)\<lparr>closed := True\<rparr>]\<rparr>"

definition panic :: "'e net \<Rightarrow> 'e net" where
  "panic s = s\<lparr>panicked := True\<rparr>"

text \<open>
  Worker \<open>j\<close> of pool \<open>k\<close> has received \<open>e\<close>: it runs the loop body up to the send. The body
  is \<open>f\<close>, which is \<open>None\<close> when the type assertion in it panics.
\<close>

definition deliver :: "('e \<Rightarrow> 'e option) \<Rightarrow> 'e \<Rightarrow> nat \<Rightarrow> nat \<Rightarrow> 'e net \<Rightarrow> 'e net" where
  "deliver f e k j s = (case f e of None \<Rightarrow> panic s | Some e' \<Rightarrow> set_worker k j (Send e') s)"

text \<open>The terminal consumer has received \<open>e\<close>.\<close>

definition sink_take :: "('e \<Rightarrow> sink_action) \<Rightarrow> 'e \<Rightarrow> 'e net \<Rightarrow> 'e net" where
  "sink_take snk e s =
     (case snk e of
        Crash \<Rightarrow> panic s
      | Halt \<Rightarrow> s\<lparr>got := got s @ [e], sink_done := True\<rparr>
      | Take \<Rightarrow> s\<lparr>got := got s @ [e]\<rparr>)"

text \<open>
  One scheduling decision. \<open>Feeder\<close>, \<open>Worker k j\<close> and \<open>Sink\<close> let that goroutine take its
  next step through a buffer; \<open>FeederTo\<close>, \<open>WorkerTo\<close> and \<open>WorkerToSink\<close> are the direct
  hand-over of a value from a blocked sender to a waiting receiver, the only way a value
  passes a channel of capacity 0; \<open>Closer k\<close> is the goroutine \<open>wg.Wait(); close(outputChan)\<close>
  of pool \<open>k\<close>.
\<close>

datatype choice =
  Feeder | FeederTo nat | Worker nat nat | WorkerTo nat nat nat | WorkerToSink nat
  | Closer nat | Sink

definition feeder_step :: "'e net \<Rightarrow> 'e net option" where
  "feeder_step s =
     (let c = chans s ! 0 in
      case feed s of
        [] \<Rightarrow> if closed c then None else Some (close_chan 0 s)
      | e # es \<Rightarrow>
          if closed c then Some (panic s)
          else if length (buf c) < cap c then Some (set_buf 0 (buf c @ [e]) (s\<lparr>feed := es\<rparr>))
          else None)"

definition feeder_to :: "('e \<Rightarrow> 'e option) list \<Rightarrow> nat \<Rightarrow> 'e net \<Rightarrow> 'e net option" where
  "feeder_to fs j s =
     (let c = chans s ! 0 in
      case feed s of
        [] \<Rightarrow> None
      | e # es \<Rightarrow>
          if 0 < length (pools s) \<and> j < length (pools s ! 0) \<and> pools s ! 0 ! j = Recv
             \<and> buf c = [] \<and> \<not> closed c
          then Some (deliver (fs ! 0) e 0 j (s\<lparr>feed := es\<rparr>))
          else None)"

definition worker_step :: "('e \<Rightarrow> 'e option) list \<Rightarrow> nat \<Rightarrow> nat \<Rightarrow> 'e net \<Rightarrow> 'e net option" where
  "worker_step fs k j s =
     (if k < length (pools s) \<and> j < length (pools s ! k) then
        case pools s ! k ! j of
          Recv \<Rightarrow>
            (case buf (chans s ! k) of
               e # es \<Rightarrow> Some (deliver (fs ! k) e k j (set_buf k es s))
             | [] \<Rightarrow> if closed (chans s ! k) then Some (set_worker k j Exited s) else None)
        | Send e \<Rightarrow>
            (let c = chans s ! Suc k in
             if closed c then Some (panic s)
             else if length (buf c) < cap c
             then Some (set_worker k j Recv (set_buf (Suc k) (buf c @ [e]) s))
             else None)
        | Exited \<Rightarrow> None
      else None)"

definition worker_to :: "('e \<Rightarrow> 'e option) list \<Rightarrow> nat \<Rightarrow> nat \<Rightarrow> nat \<Rightarrow> 'e net \<Rightarrow> 'e net option" where
  "worker_to fs k j j' s =
     (if Suc k < length (pools s) \<and> j < length (pools s ! k) \<and> j' < length (pools s ! Suc k) then
        case pools s ! k ! j of
          Send e \<Rightarrow>
            if pools s ! Suc k ! j' = Recv \<and> buf (chans s ! Suc k) = []
               \<and> \<not> closed (chans s ! Suc k)
            then Some (deliver (fs ! Suc k) e (Suc k) j' (set_worker k j Recv s))
            else None
        | _ \<Rightarrow> None
      else None)"

definition worker_to_sink :: "('e \<Rightarrow> sink_action) \<Rightarrow> nat \<Rightarrow> 'e net \<Rightarrow> 'e net option" where
  "worker_to_sink snk j s =
     (let n = length (pools s) in
      if 0 < n \<and> j < length (pools s ! (n - 1)) \<and> \<not> sink_done s then
        case pools s ! (n - 1) ! j of
          Send e \<Rightarrow>
            if buf (chans s ! n) = [] \<and> \<not> closed (chans s ! n)
            then Some (sink_take snk e (set_worker (n - 1) j Recv s))
            else None
        | _ \<Rightarrow> None
      else None)"

definition closer_step :: "nat \<Rightarrow> 'e net \<Rightarrow> 'e net option" where
  "closer_step k s =
     (if k < length (pools s) \<and> list_all (\<lambda>w. w = Exited) (pools s ! k)
         \<and> \<not> closed (chans s ! Suc k)
      then Some (close_chan (Suc k) s) else None)"

definition sink_step :: "('e \<Rightarrow> sink_action) \<Rightarrow> 'e net \<Rightarrow> 'e net option" where
  "sink_step snk s =
     (let n = length (pools s) in
      if sink_done s then None
      else case buf (chans s ! n) of
             e # es \<Rightarrow> Some (sink_take snk e (set_buf n es s))
           | [] \<Rightarrow> if closed (chans s ! n) then Some (s\<lparr>sink_done := True\<rparr>) else None)"

text \<open>A panic in any goroutine ends the process: no step follows it.\<close>

definition exec ::
  "('e \<Rightarrow> 'e option) list \<Rightarrow> ('e \<Rightarrow> sink_action) \<Rightarrow> choice \<Rightarrow> 'e net \<Rightarrow> 'e net option" where
  "exec fs snk c s =
     (if panicked s then None
      else case c of
             Feeder \<Rightarrow> feeder_step s
           | FeederTo j \<Rightarrow> feeder_to fs j s
           | Worker k j \<Rightarrow> worker_step fs k j s
           | WorkerTo k j j' \<Rightarrow> worker_to fs k j j' s
           | WorkerToSink j \<Rightarrow> worker_to_sink snk j s
           | Closer k \<Rightarrow> closer_step k s
           | Sink \<Rightarrow> sink_step snk s)"

definition step :: "('e \<Rightarrow> 'e option) list \<Rightarrow> ('e \<Rightarrow> sink_action) \<Rightarrow> 'e net \<Rightarrow> 'e net \<Rightarrow> bool" where
  "step fs snk s s' = (\<exists>c. exec fs snk c s = Some s')"

definition reach :: "('e \<Rightarrow> 'e option) list \<Rightarrow> ('e \<Rightarrow> sink_action) \<Rightarrow> 'e net \<Rightarrow> 'e net \<Rightarrow> bool" where
  "reach fs snk = (step fs snk)\<^sup>*\<^sup>*"

text \<open>Running an explicit schedule.\<close>

fun run ::
  "('e \<Rightarrow> 'e option) list \<Rightarrow> ('e \<Rightarrow> sink_action) \<Rightarrow> choice list \<Rightarrow> 'e net \<Rightarrow> 'e net option" where
  "run fs snk [] s = Some s"
| "run fs snk (c # cs) s = (case exec fs snk c s of None \<Rightarrow> None | Some s' \<Rightarrow> run fs snk cs s')"


section \<open>Building the pipeline\<close>

text \<open>
  \<open>process\<close> makes one output channel and one pool of \<open>workers\<close> goroutines per action, each
  pool reading the channel before it, and returns \<open>channels[len(channels)-1]\<close>. With no
  action that index is \<open>-1\<close> and the expression panics. The capacity of every output channel
  is \<open>len(items)\<close> of the \<^emph>\<open>channel\<close> \<open>items\<close>, the number of elements queued in it at that
  moment, which depends on how far the feeder has run: \<open>caps i\<close> is the number read when
  pool \<open>i\<close> is built. The loop \<open>for j := 0; j < workers; j++\<close> starts \<open>nat width\<close> workers,
  \<open>width\<close> being the argument \<open>workers\<close>.
\<close>

definition process ::
  "'e chan \<Rightarrow> 'a list \<Rightarrow> int \<Rightarrow> ('a \<Rightarrow> 'e \<Rightarrow> 'e option) \<Rightarrow> (nat \<Rightarrow> nat)
   \<Rightarrow> (('e \<Rightarrow> 'e option) list \<times> 'e chan list \<times> 'e wstate list list) option" where
  "process items actions width worker caps =
     (if actions = [] then None
      else Some (map worker actions,
                 items # map (\<lambda>i. new_chan (caps i)) [0..<length actions],
                 replicate (length actions) (replicate (nat width) Recv)))"

text \<open>
  A started call: the loop bodies of its pools, what its terminal consumer does with an
  envelope, and the state in which its goroutines start.
\<close>

record 'e pipeline =
  stages :: "('e \<Rightarrow> 'e option) list"
  sink :: "'e \<Rightarrow> sink_action"
  init :: "'e net"

definition start :: "'e list \<Rightarrow> 'e chan list \<Rightarrow> 'e wstate list list \<Rightarrow> 'e net" where
  "start items chs pls =
     \<lparr>feed = items, chans = chs, pools = pls, got = [], sink_done = False, panicked = False\<rparr>"

datatype 'r outcome = Returned 'r | Panic | Running

subsection \<open>Transform\<close>

definition Transform_worker ::
  "'v typarams \<Rightarrow> ('v \<Rightarrow> 'v) \<Rightarrow> 'v IndexedItem \<Rightarrow> 'v IndexedItem option" where
  "Transform_worker tp action indexedInput =
     (if Input tp (Item indexedInput)
      then Some \<lparr>Index = Index indexedInput, Item = action (Item indexedInput)\<rparr>
      else None)"

definition Transform_sink :: "'v typarams \<Rightarrow> nat \<Rightarrow> 'v IndexedItem \<Rightarrow> sink_action" where
  "Transform_sink tp n indexedItem =
     (if Output tp (Item indexedItem) \<and> Index indexedItem < n then Take else Crash)"

definition indexed :: "'v list \<Rightarrow> 'v IndexedItem list" where
  "indexed items = map (\<lambda>(i, item). \<lparr>Index = i, Item = item\<rparr>) (enumerate 0 items)"

definition Transform ::
  "'v transformer \<Rightarrow> (nat \<Rightarrow> nat) \<Rightarrow> 'v list \<Rightarrow> ('v \<Rightarrow> 'v) list \<Rightarrow> 'v IndexedItem pipeline option" where
  "Transform t caps items actions =
     (case process (new_chan (length items)) actions (workers t) (Transform_worker (types t)) caps of
        None \<Rightarrow> None
      | Some (fs, chs, pls) \<Rightarrow>
          Some \<lparr>stages = fs, sink = Transform_sink (types t) (length items),
                init = start (indexed items) chs pls\<rparr>)"

text \<open>The collecting loop: \<open>transformedItems[indexedItem.Index] = indexedItem.Item.(Output)\<close>.\<close>

definition Transform_collect :: "'v \<Rightarrow> nat \<Rightarrow> ('v, 'm) IndexedItem_scheme list \<Rightarrow> 'v list" where
  "Transform_collect z n es = fold (\<lambda>e r. r[Index e := Item e]) es (replicate n z)"

definition Transform_outcome :: "'v transformer \<Rightarrow> 'v list \<Rightarrow> 'v IndexedItem net \<Rightarrow> 'v list outcome" where
  "Transform_outcome t items s =
     (if sink_done s then Returned (Transform_collect (zero (types t)) (length items) (got s))
      else if panicked s then Panic else Running)"

subsection \<open>TransformWithError\<close>

text \<open>
  An action with an error result returns the output and a possibly nil error. The worker
  asserts the item it received, whatever the \<open>Err\<close> field of the envelope holds, calls the
  action, and sends a new envelope with that call's output and error.
\<close>

definition TransformWithError_worker ::
  "'v typarams \<Rightarrow> ('v \<Rightarrow> 'v \<times> error option) \<Rightarrow> 'v IndexedItemWithError
   \<Rightarrow> 'v IndexedItemWithError option" where
  "TransformWithError_worker tp action indexedInput =
     (if Input tp (Item indexedInput)
      then (case action (Item indexedInput) of
              (output, err) \<Rightarrow> Some \<lparr>Index = Index indexedInput, Item = output, Err = err\<rparr>)
      else None)"

definition TransformWithError_sink ::
  "'v typarams \<Rightarrow> nat \<Rightarrow> 'v IndexedItemWithError \<Rightarrow> sink_action" where
  "TransformWithError_sink tp n indexedItem =
     (if Err indexedItem \<noteq> None then Halt
      else if Output tp (Item indexedItem) \<and> Index indexedItem < n then Take
      else Crash)"

definition indexed_with_error :: "'v list \<Rightarrow> 'v IndexedItemWithError list" where
  "indexed_with_error items =
     map (\<lambda>(i, item). \<lparr>Index = i, Item = item, Err = None\<rparr>) (enumerate 0 items)"

definition TransformWithError ::
  "'v transformer \<Rightarrow> (nat \<Rightarrow> nat) \<Rightarrow> 'v list \<Rightarrow> ('v \<Rightarrow> 'v \<times> error option) list
   \<Rightarrow> 'v IndexedItemWithError pipeline option" where
  "TransformWithError t caps items actions =
     (case process (new_chan (length items)) actions (workers t)
             (TransformWithError_worker (types t)) caps of
        None \<Rightarrow> None
      | Some (fs, chs, pls) \<Rightarrow>
          Some \<lparr>stages = fs, sink = TransformWithError_sink (types t) (length items),
                init = start (indexed_with_error items) chs pls\<rparr>)"

text \<open>
  The collecting loop over the envelopes in the order they arrive: the first one with an
  error ends the call with \<open>(nil, err)\<close>; when the channel is closed the slice is returned
  with a nil error.
\<close>

fun TransformWithError_collect ::
  "'v list \<Rightarrow> 'v IndexedItemWithError list \<Rightarrow> 'v list option \<times> error option" where
  "TransformWithError_collect transformedItems [] = (Some transformedItems, None)"
| "TransformWithError_collect transformedItems (indexedItem # rest) =
     (if Err indexedItem \<noteq> None then (None, Err indexedItem)
      else TransformWithError_collect
             (transformedItems[Index indexedItem := Item indexedItem]) rest)"

definition TransformWithError_outcome ::
  "'v transformer \<Rightarrow> 'v list \<Rightarrow> 'v IndexedItemWithError net
   \<Rightarrow> ('v list option \<times> error option) outcome" where
  "TransformWithError_outcome t items s =
     (if sink_done s
      then Returned (TransformWithError_collect (replicate (length items) (zero (types t))) (got s))
      else if panicked s then Panic else Running)"

subsection \<open>TransformChannels\<close>

text \<open>
  The channel API takes the caller's channel. \<open>items\<close> is the sequence of values that channel
  delivers before it is closed, \<open>queued\<close> the number \<open>len(items)\<close> of values waiting in it at
  the call, which is the capacity of the entry channel and of the returned one. The first
  goroutine forwards the values into the entry channel and closes it; the last one asserts
  each result and sends it on the returned channel, which it closes at the end. The caller is
  taken to receive from the returned channel, so that this send does not block for ever:
  what the terminal goroutine has received is what the returned channel has carried.
\<close>

definition TransformChannels_worker :: "'v typarams \<Rightarrow> ('v \<Rightarrow> 'v) \<Rightarrow> 'v \<Rightarrow> 'v option" where
  "TransformChannels_worker tp action indexedInput =
     (if Input tp indexedInput then Some (action indexedInput) else None)"

definition TransformChannels_sink :: "'v typarams \<Rightarrow> 'v \<Rightarrow> sink_action" where
  "TransformChannels_sink tp item = (if Output tp item then Take else Crash)"

definition TransformChannels ::
  "'v transformer \<Rightarrow> (nat \<Rightarrow> nat) \<Rightarrow> nat \<Rightarrow> 'v list \<Rightarrow> ('v \<Rightarrow> 'v) list \<Rightarrow> 'v pipeline option" where
  "TransformChannels t caps queued items actions =
     (case process (new_chan queued) actions (workers t) (TransformChannels_worker (types t)) caps of
        None \<Rightarrow> None
      | Some (fs, chs, pls) \<Rightarrow>
          Some \<lparr>stages = fs, sink = TransformChannels_sink (types t), init = start items chs pls\<rparr>)"

text \<open>The returned channel, once closed, has carried these values in this order.\<close>

definition TransformChannels_outcome :: "'v net \<Rightarrow> 'v list outcome" where
  "TransformChannels_outcome s =
     (if sink_done s then Returned (got s) else if panicked s then Panic else Running)"

subsection \<open>TransformChannelsWithError\<close>

definition TransformChannelsWithError_worker ::
  "'v typarams \<Rightarrow> ('v \<Rightarrow> 'v \<times> error option) \<Rightarrow> 'v ItemWithError \<Rightarrow> 'v ItemWithError option" where
  "TransformChannelsWithError_worker tp action indexedInput =
     (if Input tp (SItem indexedInput)
      then (case action (SItem indexedInput) of
              (output, err) \<Rightarrow> Some \<lparr>SItem = output, SErr = err\<rparr>)
      else None)"

definition TransformChannelsWithError_sink :: "'v typarams \<Rightarrow> 'v ItemWithError \<Rightarrow> sink_action" where
  "TransformChannelsWithError_sink tp item =
     (if SErr item \<noteq> None then Halt else if Output tp (SItem item) then Take else Crash)"

definition TransformChannelsWithError ::
  "'v transformer \<Rightarrow> (nat \<Rightarrow> nat) \<Rightarrow> nat \<Rightarrow> 'v list \<Rightarrow> ('v \<Rightarrow> 'v \<times> error option) list
   \<Rightarrow> 'v ItemWithError pipeline option" where
  "TransformChannelsWithError t caps queued items actions =
     (case process (new_chan queued) actions (workers t)
             (TransformChannelsWithError_worker (types t)) caps of
        None \<Rightarrow> None
      | Some (fs, chs, pls) \<Rightarrow>
          Some \<lparr>stages = fs, sink = TransformChannelsWithError_sink (types t),
                init = start (map (\<lambda>item. \<lparr>SItem = item, SErr = None\<rparr>) items) chs pls\<rparr>)"

text \<open>
  The terminal goroutine: what it sends on \<open>transformedItems\<close> and on \<open>errors\<close> while it
  receives the given envelopes in order. It returns at the first envelope with an error.
\<close>

fun forwarded :: "'v ItemWithError list \<Rightarrow> 'v list \<times> error list" where
  "forwarded [] = ([], [])"
| "forwarded (item # rest) =
     (case SErr item of
        Some err \<Rightarrow> ([], [err])
      | None \<Rightarrow> (SItem item # fst (forwarded rest), snd (forwarded rest)))"

text \<open>
  The two returned channels: \<open>buf\<close> is what has been sent on the channel so far, \<open>closed\<close>
  whether the deferred \<open>close\<close> calls have run, which they do when the goroutine returns.
  \<open>errors\<close> is made with \<open>make(chan error, 1)\<close>.
\<close>

definition transformedItems_chan :: "nat \<Rightarrow> 'v ItemWithError net \<Rightarrow> 'v chan" where
  "transformedItems_chan queued s =
     \<lparr>buf = fst (forwarded (got s)), cap = queued, closed = sink_done s\<rparr>"

definition errors_chan :: "'v ItemWithError net \<Rightarrow> error chan" where
  "errors_chan s = \<lparr>buf = snd (forwarded (got s)), cap = 1, closed = sink_done s\<rparr>"

definition TransformChannelsWithError_outcome ::
  "'v ItemWithError net \<Rightarrow> ('v list \<times> error list) outcome" where
  "TransformChannelsWithError_outcome s =
     (if sink_done s then Returned (forwarded (got s)) else if panicked s then Panic else Running)"

section \<open>Actions of the test suite\<close>

definition to_upper :: "char \<Rightarrow> char" where
  "to_upper c = (if CHR ''a'' \<le> c \<and> c \<le> CHR ''z'' then char_of (of_char c - (32::nat)) else c)"

definition to_lower :: "char \<Rightarrow> char" where
  "to_lower c = (if CHR ''A'' \<le> c \<and> c \<le> CHR ''Z'' then char_of (of_char c + (32::nat)) else c)"

fun ToUpper :: "any \<Rightarrow> any" where
  "ToUpper (Str s) = Str (map to_upper s)"
| "ToUpper x = x"

fun ToLower :: "any \<Rightarrow> any" where
  "ToLower (Str s) = Str (map to_lower s)"
| "ToLower x = x"

fun double :: "any \<Rightarrow> any" where
  "double (Num n) = Num (n * 2)"
| "double x = x"

fun string_length :: "any \<Rightarrow> any" where
  "string_length (Str s) = Num (int (length s))"
| "string_length x = x"


definition upperCase :: "any \<Rightarrow> any \<times> error option" where
  "upperCase item = (ToUpper item, None)"

definition errorFunc :: "any \<Rightarrow> any \<times> error option" where
  "errorFunc item = (item, Some ''error'')"

section \<open>Invariants, measures and what a call is expected to do\<close>

definition shape :: "'e net \<Rightarrow> bool" where
  "shape s \<longleftrightarrow> length (chans s) = Suc (length (pools s))"

definition closure_inv :: "'e net \<Rightarrow> bool" where
  "closure_inv s \<longleftrightarrow>
     (closed (chans s ! 0) \<longrightarrow> feed s = []) \<and>
     (\<forall>k<length (pools s).
        (closed (chans s ! Suc k) \<longrightarrow> (\<forall>j<length (pools s ! k). pools s ! k ! j = Exited)) \<and>
        ((\<exists>j<length (pools s ! k). pools s ! k ! j = Exited) \<longrightarrow>
           closed (chans s ! k) \<and> buf (chans s ! k) = []))"

definition fwd :: "('e \<Rightarrow> 'e option) list \<Rightarrow> nat \<Rightarrow> 'e \<Rightarrow> 'e" where
  "fwd fs k e = fold (\<lambda>f x. the (f x)) (drop k fs) e"

definition occ :: "('e \<Rightarrow> 'e) \<Rightarrow> 'e \<Rightarrow> 'e list \<Rightarrow> int" where
  "occ f x es = int (length (filter (\<lambda>e. f e = x) es))"

fun held :: "'e wstate \<Rightarrow> 'e list" where
  "held (Send e) = [e]"
| "held w = []"

definition csum :: "(nat \<Rightarrow> 'a \<Rightarrow> int) \<Rightarrow> 'a list \<Rightarrow> int" where
  "csum h xs = (\<Sum>i<length xs. h i (xs ! i))"

definition pending :: "('e \<Rightarrow> 'e option) list \<Rightarrow> 'e \<Rightarrow> 'e net \<Rightarrow> int" where
  "pending fs x s =
     occ id x (got s) + occ (fwd fs 0) x (feed s)
     + csum (\<lambda>k c. occ (fwd fs k) x (buf c)) (chans s)
     + csum (\<lambda>k p. csum (\<lambda>j w. occ (fwd fs (Suc k)) x (held w)) p) (pools s)"

definition sink_inv :: "('e \<Rightarrow> sink_action) \<Rightarrow> 'e net \<Rightarrow> bool" where
  "sink_inv snk s \<longleftrightarrow>
     (\<forall>e\<in>set (butlast (got s)). snk e = Take) \<and>
     (got s \<noteq> [] \<longrightarrow> snk (last (got s)) \<noteq> Crash) \<and>
     (\<not> sink_done s \<longrightarrow> (\<forall>e\<in>set (got s). snk e = Take)) \<and>
     (sink_done s \<and> (\<forall>e\<in>set (got s). snk e = Take) \<longrightarrow>
        closed (chans s ! length (pools s)) \<and> buf (chans s ! length (pools s)) = [])"

definition fresh :: "'e net \<Rightarrow> bool" where
  "fresh s \<longleftrightarrow>
     got s = [] \<and> \<not> sink_done s \<and> \<not> panicked s \<and>
     (\<forall>k<length (chans s). buf (chans s ! k) = [] \<and> \<not> closed (chans s ! k)) \<and>
     (\<forall>k<length (pools s). \<forall>j<length (pools s ! k). pools s ! k ! j = Recv)"

definition inv :: "('e \<Rightarrow> 'e option) list \<Rightarrow> ('e \<Rightarrow> sink_action) \<Rightarrow> 'e net \<Rightarrow> 'e net \<Rightarrow> bool" where
  "inv fs snk s0 s \<longleftrightarrow>
     shape s \<and> closure_inv s \<and> map length (pools s) = map length (pools s0) \<and>
     (\<not> panicked s \<longrightarrow> sink_inv snk s \<and> (\<forall>x. pending fs x s = pending fs x s0))"

fun wfuel :: "nat \<Rightarrow> nat \<Rightarrow> 'e wstate \<Rightarrow> int" where
  "wfuel n k Recv = 1"
| "wfuel n k (Send e) = 1 + 2 * (int n - int k)"
| "wfuel n k Exited = 0"

definition cfuel :: "nat \<Rightarrow> nat \<Rightarrow> 'e chan \<Rightarrow> int" where
  "cfuel n k c = (2 * (int n - int k) + 1) * int (length (buf c)) + (if closed c then 0 else 1)"

definition ifuel :: "'e net \<Rightarrow> int" where
  "ifuel s =
     (2 * int (length (pools s)) + 2) * int (length (feed s))
     + csum (cfuel (length (pools s))) (chans s)
     + csum (\<lambda>k p. csum (\<lambda>j w. wfuel (length (pools s)) k w) p) (pools s)
     + (if sink_done s then 0 else 1) + (if panicked s then 0 else 1)"

definition fuel :: "'e net \<Rightarrow> nat" where
  "fuel s = nat (ifuel s)"

definition waiting :: "'e net \<Rightarrow> nat \<Rightarrow> bool" where
  "waiting s k \<longleftrightarrow>
     (if k = length (pools s) then \<not> sink_done s
      else \<exists>j<length (pools s ! k). pools s ! k ! j = Recv)"

fun passes :: "('e \<Rightarrow> 'e option) list \<Rightarrow> ('e \<Rightarrow> sink_action) \<Rightarrow> 'e \<Rightarrow> bool" where
  "passes [] snk e = (snk e \<noteq> Crash)"
| "passes (f # fs) snk e = (case f e of None \<Rightarrow> False | Some e' \<Rightarrow> passes fs snk e')"

definition good :: "('e \<Rightarrow> 'e option) list \<Rightarrow> ('e \<Rightarrow> sink_action) \<Rightarrow> nat \<Rightarrow> 'e \<Rightarrow> bool" where
  "good fs snk k e = passes (drop k fs) snk e"

definition good_inv :: "('e \<Rightarrow> 'e option) list \<Rightarrow> ('e \<Rightarrow> sink_action) \<Rightarrow> 'e net \<Rightarrow> bool" where
  "good_inv fs snk s \<longleftrightarrow>
     (\<forall>e\<in>set (feed s). good fs snk 0 e) \<and>
     (\<forall>k<length (chans s). \<forall>e\<in>set (buf (chans s ! k)). good fs snk k e) \<and>
     (\<forall>k<length (pools s). \<forall>j<length (pools s ! k). \<forall>e.
        pools s ! k ! j = Send e \<longrightarrow> good fs snk (Suc k) e)"

definition ready :: "('e \<Rightarrow> 'e option) list \<Rightarrow> 'e net \<Rightarrow> bool" where
  "ready fs s \<longleftrightarrow>
     fresh s \<and> shape s \<and> length fs = length (pools s) \<and> 0 < length (pools s)"

fun well_typed :: "'v typarams \<Rightarrow> ('v \<Rightarrow> 'v) list \<Rightarrow> 'v \<Rightarrow> bool" where
  "well_typed tp [] x = Output tp x"
| "well_typed tp (a # as) x = (Input tp x \<and> well_typed tp as (a x))"

definition apply_all :: "('v \<Rightarrow> 'v) list \<Rightarrow> 'v \<Rightarrow> 'v" where
  "apply_all actions x = fold (\<lambda>a y. a y) actions x"

definition always_returns :: "'e pipeline \<Rightarrow> ('e net \<Rightarrow> 'r outcome) \<Rightarrow> ('r \<Rightarrow> bool) \<Rightarrow> bool" where
  "always_returns P out Q \<longleftrightarrow>
     (\<forall>s. reach (stages P) (sink P) (init P) s \<longrightarrow>
        \<not> panicked s \<and>
        (sink_done s \<or> (\<exists>s'. step (stages P) (sink P) s s')) \<and>
        (\<forall>s'. step (stages P) (sink P) s s' \<longrightarrow> fuel s' < fuel s) \<and>
        (sink_done s \<longrightarrow> (\<exists>r. out s = Returned r \<and> Q r)))"

definition Transform_net ::
  "'v transformer \<Rightarrow> (nat \<Rightarrow> nat) \<Rightarrow> 'v list \<Rightarrow> ('v \<Rightarrow> 'v) list \<Rightarrow> 'v IndexedItem net" where
  "Transform_net t caps items actions =
     start (indexed items)
       (new_chan (length items) # map (\<lambda>i. new_chan (caps i)) [0..<length actions])
       (replicate (length actions) (replicate (nat (workers t)) Recv))"

definition idle :: "'e net \<Rightarrow> bool" where
  "idle s \<longleftrightarrow>
     got s = [] \<and> (\<forall>k<length (pools s). pools s ! k = [] \<and> buf (chans s ! Suc k) = [])"

fun run_actions :: "('v \<Rightarrow> 'v \<times> error option) list \<Rightarrow> 'v \<times> error option \<Rightarrow> 'v \<times> error option" where
  "run_actions [] r = r"
| "run_actions (a # as) r = run_actions as (a (fst r))"

fun well_typed_err :: "'v typarams \<Rightarrow> ('v \<Rightarrow> 'v \<times> error option) list \<Rightarrow> 'v \<times> error option \<Rightarrow> bool" where
  "well_typed_err tp [] r = (snd r \<noteq> None \<or> Output tp (fst r))"
| "well_typed_err tp (a # as) r = (Input tp (fst r) \<and> well_typed_err tp as (a (fst r)))"

definition TransformWithError_net ::
  "'v transformer \<Rightarrow> (nat \<Rightarrow> nat) \<Rightarrow> 'v list \<Rightarrow> ('v \<Rightarrow> 'v \<times> error option) list
   \<Rightarrow> 'v IndexedItemWithError net" where
  "TransformWithError_net t caps items actions =
     start (indexed_with_error items)
       (new_chan (length items) # map (\<lambda>i. new_chan (caps i)) [0..<length actions])
       (replicate (length actions) (replicate (nat (workers t)) Recv))"

definition TransformChannels_net ::
  "'v transformer \<Rightarrow> (nat \<Rightarrow> nat) \<Rightarrow> nat \<Rightarrow> 'v list \<Rightarrow> ('v \<Rightarrow> 'v) list \<Rightarrow> 'v net" where
  "TransformChannels_net t caps queued items actions =
     start items
       (new_chan queued # map (\<lambda>i. new_chan (caps i)) [0..<length actions])
       (replicate (length actions) (replicate (nat (workers t)) Recv))"

definition TransformChannelsWithError_net ::
  "'v transformer \<Rightarrow> (nat \<Rightarrow> nat) \<Rightarrow> nat \<Rightarrow> 'v list \<Rightarrow> ('v \<Rightarrow> 'v \<times> error option) list
   \<Rightarrow> 'v ItemWithError net" where
  "TransformChannelsWithError_net t caps queued items actions =
     start (map (\<lambda>item. \<lparr>SItem = item, SErr = None\<rparr>) items)
       (new_chan queued # map (\<lambda>i. new_chan (caps i)) [0..<length actions])
       (replicate (length actions) (replicate (nat (workers t)) Recv))"


section \<open>Properties of every interleaving\<close>

lemma set_worker_simps [simp]:
  "feed (set_worker k j w s) = feed s"
  "chans (set_worker k j w s) = chans s"
  "pools (set_worker k j w s) = (pools s)[k := (pools s ! k)[j := w]]"
  "got (set_worker k j w s) = got s"
  "sink_done (set_worker k j w s) = sink_done s"
  "panicked (set_worker k j w s) = panicked s"
  by (simp_all add: set_worker_def)

lemma set_buf_simps [simp]:
  "feed (set_buf k b s) = feed s"
  "chans (set_buf k b s) = (chans s)[k := (chans s ! k)\<lparr>buf := b\<rparr>]"
  "pools (set_buf k b s) = pools s"
  "got (set_buf k b s) = got s"
  "sink_done (set_buf k b s) = sink_done s"
  "panicked (set_buf k b s) = panicked s"
  by (simp_all add: set_buf_def)

lemma close_chan_simps [simp]:
  "feed (close_chan k s) = feed s"
  "chans (close_chan k s) = (chans s)[k := (chans s ! k)\<lparr>closed := True\<rparr>]"
  "pools (close_chan k s) = pools s"
  "got (close_chan k s) = got s"
  "sink_done (close_chan k s) = sink_done s"
  "panicked (close_chan k s) = panicked s"
  by (simp_all add: close_chan_def)

lemma panic_simps [simp]:
  "feed (panic s) = feed s"
  "chans (panic s) = chans s"
  "pools (panic s) = pools s"
  "got (panic s) = got s"
  "sink_done (panic s) = sink_done s"
  "panicked (panic s) = True"
  by (simp_all add: panic_def)

text \<open>Every step, by the goroutine that takes it.\<close>

lemma exec_cases [consumes 1, case_names FeedClose FeedPut FeedPanic FeedTo Recv Exit Put
    PutPanic Hand HandSink Close SinkRecv SinkEnd]:
  assumes "exec fs snk c s = Some s'"
  obtains
    (FeedClose) "\<not> panicked s" "feed s = []" "\<not> closed (chans s ! 0)" "s' = close_chan 0 s"
  | (FeedPut) e es where "\<not> panicked s" "feed s = e # es" "\<not> closed (chans s ! 0)"
      "length (buf (chans s ! 0)) < cap (chans s ! 0)"
      "s' = set_buf 0 (buf (chans s ! 0) @ [e]) (s\<lparr>feed := es\<rparr>)"
  | (FeedPanic) e es where "\<not> panicked s" "feed s = e # es" "closed (chans s ! 0)" "s' = panic s"
  | (FeedTo) e es j where "\<not> panicked s" "feed s = e # es" "0 < length (pools s)"
      "j < length (pools s ! 0)" "pools s ! 0 ! j = Recv" "buf (chans s ! 0) = []"
      "\<not> closed (chans s ! 0)" "s' = deliver (fs ! 0) e 0 j (s\<lparr>feed := es\<rparr>)"
  | (Recv) k j e es where "\<not> panicked s" "k < length (pools s)" "j < length (pools s ! k)"
      "pools s ! k ! j = Recv" "buf (chans s ! k) = e # es"
      "s' = deliver (fs ! k) e k j (set_buf k es s)"
  | (Exit) k j where "\<not> panicked s" "k < length (pools s)" "j < length (pools s ! k)"
      "pools s ! k ! j = Recv" "buf (chans s ! k) = []" "closed (chans s ! k)"
      "s' = set_worker k j Exited s"
  | (Put) k j e where "\<not> panicked s" "k < length (pools s)" "j < length (pools s ! k)"
      "pools s ! k ! j = Send e" "\<not> closed (chans s ! Suc k)"
      "length (buf (chans s ! Suc k)) < cap (chans s ! Suc k)"
      "s' = set_worker k j Recv (set_buf (Suc k) (buf (chans s ! Suc k) @ [e]) s)"
  | (PutPanic) k j e where "\<not> panicked s" "k < length (pools s)" "j < length (pools s ! k)"
      "pools s ! k ! j = Send e" "closed (chans s ! Suc k)" "s' = panic s"
  | (Hand) k j j' e where "\<not> panicked s" "Suc k < length (pools s)" "j < length (pools s ! k)"
      "j' < length (pools s ! Suc k)" "pools s ! k ! j = Send e" "pools s ! Suc k ! j' = Recv"
      "buf (chans s ! Suc k) = []" "\<not> closed (chans s ! Suc k)"
      "s' = deliver (fs ! Suc k) e (Suc k) j' (set_worker k j Recv s)"
  | (HandSink) k j e where "\<not> panicked s" "Suc k = length (pools s)" "j < length (pools s ! k)"
      "\<not> sink_done s" "pools s ! k ! j = Send e" "buf (chans s ! Suc k) = []"
      "\<not> closed (chans s ! Suc k)" "s' = sink_take snk e (set_worker k j Recv s)"
  | (Close) k where "\<not> panicked s" "k < length (pools s)" "\<forall>w\<in>set (pools s ! k). w = Exited"
      "\<not> closed (chans s ! Suc k)" "s' = close_chan (Suc k) s"
  | (SinkRecv) e es where "\<not> panicked s" "\<not> sink_done s"
      "buf (chans s ! length (pools s)) = e # es"
      "s' = sink_take snk e (set_buf (length (pools s)) es s)"
  | (SinkEnd) "\<not> panicked s" "\<not> sink_done s" "buf (chans s ! length (pools s)) = []"
      "closed (chans s ! length (pools s))" "s' = s\<lparr>sink_done := True\<rparr>"
proof (cases c)
  case Feeder
  with assms FeedClose FeedPut FeedPanic show ?thesis
    by (auto simp: exec_def feeder_step_def Let_def split: if_splits list.splits)
next
  case (FeederTo j)
  with assms FeedTo show ?thesis
    by (auto simp: exec_def feeder_to_def Let_def split: if_splits list.splits)
next
  case (Worker k j)
  with assms Recv Exit Put PutPanic show ?thesis
    by (auto simp: exec_def worker_step_def Let_def split: if_splits list.splits wstate.splits)
next
  case (WorkerTo k j j')
  with assms Hand show ?thesis
    by (auto simp: exec_def worker_to_def Let_def split: if_splits list.splits wstate.splits)
next
  case (WorkerToSink j)
  with assms HandSink [of "length (pools s) - 1" j] show ?thesis
    by (auto simp: exec_def worker_to_sink_def Let_def split: if_splits list.splits wstate.splits)
next
  case (Closer k)
  with assms Close show ?thesis
    by (auto simp: exec_def closer_step_def list_all_iff split: if_splits)
next
  case Sink
  with assms SinkRecv SinkEnd show ?thesis
    by (auto simp: exec_def sink_step_def Let_def split: if_splits list.splits)
qed

lemma nth2_update [simp]:
  "xs[k := (xs ! k)[j := w]] ! i ! l =
     (if i = k \<and> l = j \<and> k < length xs \<and> j < length (xs ! k) then w else xs ! i ! l)"
  by (cases "k < length xs"; cases "j < length (xs ! k)")
     (auto simp: nth_list_update list_update_beyond not_less)

lemma len2_update [simp]: "length (xs[k := (xs ! k)[j := w]] ! i) = length (xs ! i)"
  by (cases "k < length xs") (auto simp: nth_list_update list_update_beyond not_less)

lemma buf_update [simp]:
  "buf (cs[k := (cs ! k)\<lparr>buf := b\<rparr>] ! i) = (if i = k \<and> k < length cs then b else buf (cs ! i))"
  "closed (cs[k := (cs ! k)\<lparr>buf := b\<rparr>] ! i) = closed (cs ! i)"
  "cap (cs[k := (cs ! k)\<lparr>buf := b\<rparr>] ! i) = cap (cs ! i)"
  by (cases "k < length cs"; auto simp: nth_list_update list_update_beyond not_less)+

lemma closed_update [simp]:
  "closed (cs[k := (cs ! k)\<lparr>closed := True\<rparr>] ! i) = (i = k \<and> k < length cs \<or> closed (cs ! i))"
  "buf (cs[k := (cs ! k)\<lparr>closed := True\<rparr>] ! i) = buf (cs ! i)"
  "cap (cs[k := (cs ! k)\<lparr>closed := True\<rparr>] ! i) = cap (cs ! i)"
  by (cases "k < length cs"; auto simp: nth_list_update list_update_beyond not_less)+

lemma deliver_simps [simp]:
  "feed (deliver f e k j s) = feed s"
  "chans (deliver f e k j s) = chans s"
  "got (deliver f e k j s) = got s"
  "sink_done (deliver f e k j s) = sink_done s"
  "length (pools (deliver f e k j s)) = length (pools s)"
  "length (pools (deliver f e k j s) ! i) = length (pools s ! i)"
  by (simp_all add: deliver_def split: option.splits)

lemma sink_take_simps [simp]:
  "feed (sink_take snk e s) = feed s"
  "chans (sink_take snk e s) = chans s"
  "pools (sink_take snk e s) = pools s"
  by (simp_all add: sink_take_def split: sink_action.splits)

lemma deliver_pools:
  "pools (deliver f e k j s) ! i ! l =
     (if i = k \<and> l = j \<and> k < length (pools s) \<and> j < length (pools s ! k) \<and> f e \<noteq> None
      then Send (the (f e)) else pools s ! i ! l)"
  by (auto simp: deliver_def split: option.splits)

lemma shape_step: "exec fs snk c s = Some s' \<Longrightarrow> shape s \<Longrightarrow> shape s'"
  by (erule exec_cases) (simp_all add: shape_def)

lemma ci1:
  assumes "shape s" "closure_inv s" "\<not> panicked s" "feed s = []" "\<not> closed (chans s ! 0)" "s' = close_chan 0 s"
  shows "closure_inv s'"
  using assms by (auto simp: closure_inv_def shape_def split: if_splits)

lemma ci2:
  assumes "shape s" "closure_inv s" "feed s = e # es" "\<not> closed (chans s ! 0)"
      "s' = set_buf 0 (buf (chans s ! 0) @ [e]) (s\<lparr>feed := es\<rparr>)"
  shows "closure_inv s'"
  using assms by (auto simp: closure_inv_def shape_def split: if_splits)

lemma ci3: "closure_inv s \<Longrightarrow> closure_inv (panic s)"
  by (auto simp: closure_inv_def)

lemma ci_deliver:
  assumes "shape s" "closure_inv s" "k < length (pools s)" "j < length (pools s ! k)"
    "pools s ! k ! j = Recv"
  shows "closure_inv (deliver f e k j s)"
proof (cases "f e")
  case None
  then show ?thesis using assms by (simp add: deliver_def ci3)
next
  case (Some e')
  have "closure_inv (set_worker k j (Send e') s)"
    using assms by (auto simp: closure_inv_def shape_def split: if_splits)
  then show ?thesis using Some by (simp add: deliver_def)
qed

lemma ci_take:
  assumes "shape s" "closure_inv s" "k \<le> length (pools s)"
  shows "closure_inv (set_buf k (tl (buf (chans s ! k))) s)"
  using assms by (auto simp: closure_inv_def shape_def split: if_splits)

lemma closure_inv_cong:
  "feed s' = feed s \<Longrightarrow> chans s' = chans s \<Longrightarrow> pools s' = pools s \<Longrightarrow>
   closure_inv s' = closure_inv s"
  by (simp add: closure_inv_def)

lemma shape_cong: "chans s' = chans s \<Longrightarrow> pools s' = pools s \<Longrightarrow> shape s' = shape s"
  by (simp add: shape_def)

lemma ci_sink_take: "closure_inv (sink_take snk e s) = closure_inv s"
  by (rule closure_inv_cong) simp_all

lemma shape_set_buf [simp]: "shape (set_buf k b s) = shape s"
  by (simp add: shape_def)

lemma shape_set_worker [simp]: "shape (set_worker k j w s) = shape s"
  by (simp add: shape_def)

lemma ci_exit:
  assumes "shape s" "closure_inv s" "k < length (pools s)" "j < length (pools s ! k)"
    "pools s ! k ! j = Recv" "buf (chans s ! k) = []" "closed (chans s ! k)"
  shows "closure_inv (set_worker k j Exited s)"
  using assms by (auto simp: closure_inv_def shape_def split: if_splits)

lemma ci_put:
  assumes "shape s" "closure_inv s" "k < length (pools s)" "j < length (pools s ! k)"
    "pools s ! k ! j = Send e" "\<not> closed (chans s ! Suc k)"
  shows "closure_inv (set_worker k j Recv (set_buf (Suc k) b s))"
  using assms by (auto simp: closure_inv_def shape_def split: if_splits)

lemma ci_unsend:
  assumes "shape s" "closure_inv s" "k < length (pools s)" "j < length (pools s ! k)"
    "pools s ! k ! j = Send e"
  shows "closure_inv (set_worker k j Recv s)"
  using assms by (auto simp: closure_inv_def shape_def split: if_splits)

lemma ci_close:
  assumes "shape s" "closure_inv s" "k < length (pools s)" "\<forall>w\<in>set (pools s ! k). w = Exited"
  shows "closure_inv (close_chan (Suc k) s)"
  using assms by (auto simp: closure_inv_def shape_def split: if_splits)

lemma closure_inv_step:
  assumes "exec fs snk c s = Some s'" "shape s" "closure_inv s"
  shows "closure_inv s'"
  using assms(1)
proof (cases rule: exec_cases)
  case FeedClose
  show ?thesis by (rule ci1 [OF assms(2,3) FeedClose])
next
  case (FeedPut e es)
  show ?thesis by (rule ci2 [OF assms(2,3) FeedPut(2,3,5)])
next
  case (FeedPanic e es)
  show ?thesis unfolding FeedPanic(4) by (rule ci3 [OF assms(3)])
next
  case (FeedTo e es j)
  have "closure_inv (s\<lparr>feed := es\<rparr>)"
    using FeedTo(7) assms(3) by (simp add: closure_inv_def)
  moreover have "shape (s\<lparr>feed := es\<rparr>)"
    using assms(2) by (simp add: shape_def)
  ultimately show ?thesis
    unfolding FeedTo(8) using FeedTo(3,4,5) by (intro ci_deliver) simp_all
next
  case (Recv k j e es)
  have "closure_inv (set_buf k es s)"
    using ci_take [OF assms(2,3), of k] Recv(2,5) by simp
  then show ?thesis
    unfolding Recv(6) using Recv(2,3,4) assms(2) by (intro ci_deliver) simp_all
next
  case (Exit k j)
  show ?thesis unfolding Exit(7) by (rule ci_exit [OF assms(2,3) Exit(2-6)])
next
  case (Put k j e)
  show ?thesis unfolding Put(7) by (rule ci_put [OF assms(2,3) Put(2-5)])
next
  case (PutPanic k j e)
  show ?thesis unfolding PutPanic(6) by (rule ci3 [OF assms(3)])
next
  case (Hand k j j' e)
  have "k < length (pools s)" using Hand(2) by simp
  then have "closure_inv (set_worker k j Recv s)"
    by (rule ci_unsend [OF assms(2,3) _ Hand(3,5)])
  then show ?thesis
    unfolding Hand(9) using Hand(2,4,6) assms(2) by (intro ci_deliver) simp_all
next
  case (HandSink k j e)
  have "k < length (pools s)" using HandSink(2) by simp
  then have "closure_inv (set_worker k j Recv s)"
    by (rule ci_unsend [OF assms(2,3) _ HandSink(3,5)])
  then show ?thesis unfolding HandSink(8) by (simp only: ci_sink_take)
next
  case (Close k)
  show ?thesis unfolding Close(5) by (rule ci_close [OF assms(2,3) Close(2,3)])
next
  case (SinkRecv e es)
  have "closure_inv (set_buf (length (pools s)) es s)"
    using ci_take [OF assms(2,3), of "length (pools s)"] SinkRecv(3) by simp
  then show ?thesis unfolding SinkRecv(4) by (simp only: ci_sink_take)
next
  case SinkEnd
  show ?thesis unfolding SinkEnd(5) using assms(3) by (simp add: closure_inv_def)
qed

lemma csum_update:
  assumes "k < length xs"
  shows "csum h (xs[k := v]) = csum h xs - h k (xs ! k) + h k v"
proof -
  have fin: "finite {..<length xs}" "k \<in> {..<length xs}" using assms by auto
  have "csum h (xs[k := v]) = h k v + (\<Sum>i\<in>{..<length xs} - {k}. h i (xs[k := v] ! i))"
    unfolding csum_def using assms by (simp add: sum.remove [OF fin])
  also have "(\<Sum>i\<in>{..<length xs} - {k}. h i (xs[k := v] ! i)) = (\<Sum>i\<in>{..<length xs} - {k}. h i (xs ! i))"
    by (rule sum.cong) auto
  also have "\<dots> = csum h xs - h k (xs ! k)"
    unfolding csum_def by (simp add: sum.remove [OF fin])
  finally show ?thesis by simp
qed

lemma occ_simps [simp]:
  "occ f x [] = 0"
  "occ f x (e # es) = (if f e = x then 1 else 0) + occ f x es"
  "occ f x (es @ es') = occ f x es + occ f x es'"
  by (simp_all add: occ_def)

lemma pending_set_buf:
  "k < length (chans s) \<Longrightarrow>
   pending fs x (set_buf k b s) =
     pending fs x s - occ (fwd fs k) x (buf (chans s ! k)) + occ (fwd fs k) x b"
  by (simp add: pending_def csum_update)

lemma pending_set_worker:
  "k < length (pools s) \<Longrightarrow> j < length (pools s ! k) \<Longrightarrow>
   pending fs x (set_worker k j w s) =
     pending fs x s - occ (fwd fs (Suc k)) x (held (pools s ! k ! j))
       + occ (fwd fs (Suc k)) x (held w)"
  by (simp add: pending_def csum_update)

lemma pending_cong:
  "got s' = got s \<Longrightarrow> feed s' = feed s \<Longrightarrow> chans s' = chans s \<Longrightarrow> pools s' = pools s \<Longrightarrow>
   pending fs x s' = pending fs x s"
  by (simp add: pending_def)

lemma pending_close [simp]: "pending fs x (close_chan k s) = pending fs x s"
proof (cases "k < length (chans s)")
  case True
  then show ?thesis by (simp add: pending_def csum_update)
next
  case False
  then show ?thesis by (simp add: pending_def list_update_beyond)
qed

lemma fwd_step: "k < length fs \<Longrightarrow> (fs ! k) e = Some e' \<Longrightarrow> fwd fs (Suc k) e' = fwd fs k e"
  by (simp add: fwd_def flip: Cons_nth_drop_Suc)

lemma fwd_end [simp]: "length fs \<le> k \<Longrightarrow> fwd fs k e = e"
  by (simp add: fwd_def)

lemma panicked_deliver:
  "panicked (deliver f e k j s) \<longleftrightarrow> panicked s \<or> f e = None"
  by (simp add: deliver_def split: option.splits)

lemma panicked_sink_take:
  "panicked (sink_take snk e s) \<longleftrightarrow> panicked s \<or> snk e = Crash"
  by (simp add: sink_take_def split: sink_action.splits)

lemma pending_deliver:
  assumes "k < length (pools s)" "j < length (pools s ! k)" "pools s ! k ! j = Recv"
    "k < length fs" "(fs ! k) e \<noteq> None"
  shows "pending fs x (deliver (fs ! k) e k j s) = pending fs x s + (if fwd fs k e = x then 1 else 0)"
proof -
  from assms(5) obtain e' where e': "(fs ! k) e = Some e'" by auto
  have "fwd fs (Suc k) e' = fwd fs k e" by (rule fwd_step [OF assms(4) e'])
  then show ?thesis
    using assms(1,2,3) e' by (simp add: deliver_def pending_set_worker)
qed

lemma pending_sink_take:
  assumes "snk e \<noteq> Crash"
  shows "pending fs x (sink_take snk e s) = pending fs x s + (if e = x then 1 else 0)"
  using assms by (cases "snk e") (simp_all add: sink_take_def pending_def)

lemma pending_feed:
  "feed s = e # es \<Longrightarrow>
   pending fs x (s\<lparr>feed := es\<rparr>) = pending fs x s - (if fwd fs 0 e = x then 1 else 0)"
  by (simp add: pending_def)

lemma pending_step:
  assumes "exec fs snk c s = Some s'" "shape s" "length fs = length (pools s)" "\<not> panicked s'"
  shows "pending fs x s' = pending fs x s"
  using assms(1)
proof (cases rule: exec_cases)
  case FeedClose
  then show ?thesis by simp
next
  case (FeedPut e es)
  have "0 < length (chans (s\<lparr>feed := es\<rparr>))" using assms(2) by (simp add: shape_def)
  then show ?thesis
    unfolding FeedPut(5) using FeedPut(2) by (simp add: pending_set_buf pending_feed)
next
  case (FeedPanic e es)
  then show ?thesis using assms(4) by simp
next
  case (FeedTo e es j)
  have ne: "(fs ! 0) e \<noteq> None"
    using assms(4) unfolding FeedTo(8) by (simp add: panicked_deliver)
  have "0 < length fs" using FeedTo(3) assms(3) by simp
  then show ?thesis
    unfolding FeedTo(8) using FeedTo(2,3,4,5) ne
    by (simp add: pending_deliver pending_feed)
next
  case (Recv k j e es)
  have ne: "(fs ! k) e \<noteq> None"
    using assms(4) unfolding Recv(6) by (simp add: panicked_deliver)
  have kc: "k < length (chans s)" using Recv(2) assms(2) by (simp add: shape_def)
  have kf: "k < length fs" using Recv(2) assms(3) by simp
  show ?thesis
    unfolding Recv(6) using Recv(2,3,4,5) ne kc kf
    by (simp add: pending_deliver pending_set_buf)
next
  case (Exit k j)
  then show ?thesis by (simp add: pending_set_worker)
next
  case (Put k j e)
  have kc: "Suc k < length (chans s)" using Put(2) assms(2) by (simp add: shape_def)
  show ?thesis
    unfolding Put(7) using Put(2,3,4) kc by (simp add: pending_set_worker pending_set_buf)
next
  case (PutPanic k j e)
  then show ?thesis using assms(4) by simp
next
  case (Hand k j j' e)
  have ne: "(fs ! Suc k) e \<noteq> None"
    using assms(4) unfolding Hand(9) by (simp add: panicked_deliver)
  have kf: "Suc k < length fs" using Hand(2) assms(3) by simp
  have kp: "k < length (pools s)" using Hand(2) by simp
  show ?thesis
    unfolding Hand(9) using Hand(2,3,4,5,6) ne kf kp
    by (simp add: pending_deliver pending_set_worker)
next
  case (HandSink k j e)
  have ne: "snk e \<noteq> Crash"
    using assms(4) unfolding HandSink(8) by (simp add: panicked_sink_take)
  have kp: "k < length (pools s)" using HandSink(2) by simp
  have "length fs \<le> Suc k" using HandSink(2) assms(3) by simp
  then show ?thesis
    unfolding HandSink(8) using HandSink(3,5) ne kp
    by (simp add: pending_sink_take pending_set_worker)
next
  case (Close k)
  then show ?thesis by simp
next
  case (SinkRecv e es)
  have ne: "snk e \<noteq> Crash"
    using assms(4) unfolding SinkRecv(4) by (simp add: panicked_sink_take)
  have kc: "length (pools s) < length (chans s)" using assms(2) by (simp add: shape_def)
  show ?thesis
    unfolding SinkRecv(4) using SinkRecv(3) ne kc assms(3)
    by (simp add: pending_sink_take pending_set_buf)
next
  case SinkEnd
  then show ?thesis by (simp add: pending_def)
qed

lemma sink_inv_cong:
  "got s' = got s \<Longrightarrow> sink_done s' = sink_done s \<Longrightarrow> length (pools s') = length (pools s) \<Longrightarrow>
   closed (chans s' ! length (pools s)) = closed (chans s ! length (pools s)) \<Longrightarrow>
   buf (chans s' ! length (pools s)) = buf (chans s ! length (pools s)) \<Longrightarrow>
   sink_inv snk s' = sink_inv snk s"
  by (simp add: sink_inv_def)

lemma sink_inv_take:
  assumes "sink_inv snk s" "\<not> sink_done s" "\<not> panicked (sink_take snk e s)" "\<not> panicked s"
  shows "sink_inv snk (sink_take snk e s)"
proof (cases "snk e")
  case Take
  then show ?thesis using assms(1,2) by (auto simp: sink_inv_def sink_take_def butlast_append)
next
  case Halt
  then show ?thesis using assms(1,2) by (auto simp: sink_inv_def sink_take_def butlast_append)
next
  case Crash
  then show ?thesis using assms(3) by (simp add: panicked_sink_take)
qed

lemma length_pools_deliver [simp]: "length (pools (deliver f e k j s)) = length (pools s)"
  by simp

lemma sink_inv_step:
  assumes "exec fs snk c s = Some s'" "shape s" "sink_inv snk s" "\<not> panicked s'"
  shows "sink_inv snk s'"
  using assms(1)
proof (cases rule: exec_cases)
  case FeedClose
  show ?thesis unfolding FeedClose(4) using assms(3) by (auto simp: sink_inv_def)
next
  case (FeedPut e es)
  show ?thesis unfolding FeedPut(5) using assms(3) FeedPut(3)
    by (auto simp: sink_inv_def split: if_splits)
next
  case (FeedPanic e es)
  then show ?thesis using assms(4) by simp
next
  case (FeedTo e es j)
  show ?thesis unfolding FeedTo(8) using assms(3) by (simp add: sink_inv_def)
next
  case (Recv k j e es)
  show ?thesis unfolding Recv(6) using assms(3) Recv(2,5)
    by (auto simp: sink_inv_def split: if_splits)
next
  case (Exit k j)
  show ?thesis unfolding Exit(7) using assms(3) by (simp add: sink_inv_def)
next
  case (Put k j e)
  show ?thesis unfolding Put(7) using assms(3) Put(5)
    by (auto simp: sink_inv_def split: if_splits)
next
  case (PutPanic k j e)
  then show ?thesis using assms(4) by simp
next
  case (Hand k j j' e)
  show ?thesis unfolding Hand(9) using assms(3) by (simp add: sink_inv_def)
next
  case (HandSink k j e)
  have a: "sink_inv snk (set_worker k j Recv s)" using assms(3) by (simp add: sink_inv_def)
  have b: "\<not> panicked (sink_take snk e (set_worker k j Recv s))"
    using assms(4) unfolding HandSink(8) .
  show ?thesis unfolding HandSink(8)
    by (rule sink_inv_take [OF a _ b]) (simp_all add: HandSink(1,4))
next
  case (Close k)
  show ?thesis unfolding Close(5) using assms(3) by (auto simp: sink_inv_def)
next
  case (SinkRecv e es)
  have a: "sink_inv snk (set_buf (length (pools s)) es s)"
    using assms(3) SinkRecv(2) by (simp add: sink_inv_def)
  have b: "\<not> panicked (sink_take snk e (set_buf (length (pools s)) es s))"
    using assms(4) unfolding SinkRecv(4) .
  show ?thesis unfolding SinkRecv(4)
    by (rule sink_inv_take [OF a _ b]) (simp_all add: SinkRecv(1,2))
next
  case SinkEnd
  show ?thesis unfolding SinkEnd(5) using assms(3) SinkEnd(2,3,4) by (simp add: sink_inv_def)
qed

lemma widths_update [simp]: "map length (xs[k := (xs ! k)[j := w]]) = map length xs"
  by (rule nth_equalityI) (auto simp: nth_list_update)

lemma widths_deliver [simp]: "map length (pools (deliver f e k j s)) = map length (pools s)"
  by (simp add: deliver_def split: option.splits)

lemma widths_step:
  assumes "exec fs snk c s = Some s'"
  shows "map length (pools s') = map length (pools s)"
  using assms by (cases rule: exec_cases) simp_all

lemma not_panicked_before: "exec fs snk c s = Some s' \<Longrightarrow> \<not> panicked s"
  by (auto simp: exec_def split: if_splits)

lemma inv_step:
  assumes "inv fs snk s0 s" "exec fs snk c s = Some s'" "length fs = length (pools s0)"
  shows "inv fs snk s0 s'"
proof -
  have np: "\<not> panicked s" by (rule not_panicked_before [OF assms(2)])
  have sh: "shape s" and ci: "closure_inv s" and w: "map length (pools s) = map length (pools s0)"
    and si: "sink_inv snk s" and pe: "\<forall>x. pending fs x s = pending fs x s0"
    using assms(1) np by (simp_all add: inv_def)
  have len: "length fs = length (pools s)"
    using w assms(3) by (metis length_map)
  have "shape s'" by (rule shape_step [OF assms(2) sh])
  moreover have "closure_inv s'" by (rule closure_inv_step [OF assms(2) sh ci])
  moreover have "map length (pools s') = map length (pools s0)"
    using widths_step [OF assms(2)] w by simp
  moreover have "sink_inv snk s'" if "\<not> panicked s'"
    by (rule sink_inv_step [OF assms(2) sh si that])
  moreover have "pending fs x s' = pending fs x s0" if "\<not> panicked s'" for x
    using pending_step [OF assms(2) sh len that, of x] pe by simp
  ultimately show ?thesis by (simp add: inv_def)
qed

lemma inv_reach:
  assumes "reach fs snk s0 s" "inv fs snk s0 s0" "length fs = length (pools s0)"
  shows "inv fs snk s0 s"
  using assms(1) unfolding reach_def
proof (induction rule: rtranclp_induct)
  case base
  show ?case by (rule assms(2))
next
  case (step y z)
  from step(2) obtain c where "exec fs snk c y = Some z" by (auto simp: step_def)
  with step(3) show ?case using assms(3) by (rule inv_step)
qed

lemma csum_zero: "(\<And>i. i < length xs \<Longrightarrow> h i (xs ! i) = 0) \<Longrightarrow> csum h xs = 0"
  by (simp add: csum_def)

lemma fresh_inv:
  assumes "fresh s" "shape s"
  shows "inv fs snk s s"
  using assms by (auto simp: inv_def fresh_def closure_inv_def sink_inv_def shape_def)

lemma fresh_pending:
  assumes "fresh s"
  shows "pending fs x s = occ (fwd fs 0) x (feed s)"
proof -
  have "csum (\<lambda>k c. occ (fwd fs k) x (buf c)) (chans s) = 0"
    using assms by (intro csum_zero) (simp add: fresh_def)
  moreover have "csum (\<lambda>k p. csum (\<lambda>j w. occ (fwd fs (Suc k)) x (held w)) p) (pools s) = 0"
    using assms by (intro csum_zero) (simp add: fresh_def)
  ultimately show ?thesis using assms by (simp add: pending_def fresh_def)
qed

lemma closed_down:
  assumes "shape s" "closure_inv s" "\<forall>k<length (pools s). pools s ! k \<noteq> []"
    "closed (chans s ! length (pools s))" "k \<le> length (pools s)"
  shows "closed (chans s ! (length (pools s) - k))"
  using assms(5)
proof (induction k)
  case 0
  then show ?case using assms(4) by simp
next
  case (Suc k)
  let ?m = "length (pools s) - Suc k"
  have m: "?m < length (pools s)" "Suc ?m = length (pools s) - k" using Suc.prems by auto
  have "closed (chans s ! Suc ?m)" using Suc m by simp
  then have "\<forall>j<length (pools s ! ?m). pools s ! ?m ! j = Exited"
    using assms(2) m(1) by (simp add: closure_inv_def)
  moreover have "0 < length (pools s ! ?m)" using assms(3) m(1) by simp
  ultimately have "\<exists>j<length (pools s ! ?m). pools s ! ?m ! j = Exited" by blast
  then show ?case using assms(2) m(1) by (simp add: closure_inv_def)
qed

lemma drained:
  assumes "shape s" "closure_inv s" "\<forall>k<length (pools s). pools s ! k \<noteq> []"
    "closed (chans s ! length (pools s))"
  shows "feed s = []"
    and "\<And>k j. k < length (pools s) \<Longrightarrow> j < length (pools s ! k) \<Longrightarrow> pools s ! k ! j = Exited"
    and "\<And>k. k < length (pools s) \<Longrightarrow> buf (chans s ! k) = []"
proof -
  have cl: "closed (chans s ! k)" if "k \<le> length (pools s)" for k
    using closed_down [OF assms, of "length (pools s) - k"] that by simp
  show "feed s = []" using cl [of 0] assms(2) by (simp add: closure_inv_def)
  show ex: "pools s ! k ! j = Exited" if "k < length (pools s)" "j < length (pools s ! k)" for k j
    using cl [of "Suc k"] that assms(2) by (simp add: closure_inv_def)
  show "buf (chans s ! k) = []" if "k < length (pools s)" for k
  proof -
    have "0 < length (pools s ! k)" using assms(3) that by simp
    then have "\<exists>j<length (pools s ! k). pools s ! k ! j = Exited" using ex [OF that] by blast
    then show ?thesis using assms(2) that by (simp add: closure_inv_def)
  qed
qed

lemma drained_pending:
  assumes "shape s" "closure_inv s" "\<forall>k<length (pools s). pools s ! k \<noteq> []"
    "closed (chans s ! length (pools s))" "buf (chans s ! length (pools s)) = []"
  shows "pending fs x s = occ id x (got s)"
proof -
  note d = drained [OF assms(1-4)]
  have "buf (chans s ! k) = []" if "k < length (chans s)" for k
    using d(3) [of k] assms(1,5) that by (cases "k = length (pools s)") (auto simp: shape_def)
  then have "csum (\<lambda>k c. occ (fwd fs k) x (buf c)) (chans s) = 0"
    by (intro csum_zero) simp
  moreover have "csum (\<lambda>k p. csum (\<lambda>j w. occ (fwd fs (Suc k)) x (held w)) p) (pools s) = 0"
    by (intro csum_zero) (simp add: d(2))
  ultimately show ?thesis using d(1) by (simp add: pending_def)
qed

lemma occ_count: "occ f x es = int (count (image_mset f (mset es)) x)"
  by (induction es) simp_all

lemma csum_nonneg: "(\<And>i. i < length xs \<Longrightarrow> 0 \<le> h i (xs ! i)) \<Longrightarrow> 0 \<le> csum h xs"
  unfolding csum_def by (rule sum_nonneg) simp

lemma occ_nonneg: "0 \<le> occ f x es"
  by (simp add: occ_def)

lemma got_le_pending: "occ id x (got s) \<le> pending fs x s"
proof -
  have "0 \<le> csum (\<lambda>k c. occ (fwd fs k) x (buf c)) (chans s)"
    by (intro csum_nonneg occ_nonneg)
  moreover have "0 \<le> csum (\<lambda>k p. csum (\<lambda>j w. occ (fwd fs (Suc k)) x (held w)) p) (pools s)"
    by (intro csum_nonneg occ_nonneg)
  moreover have "0 \<le> occ (fwd fs 0) x (feed s)" by (rule occ_nonneg)
  ultimately show ?thesis by (simp add: pending_def)
qed

text \<open>What the terminal consumer has received is part of the images of the fed envelopes,
  and all of them once it has seen its channel closed.\<close>

lemma got_sub:
  assumes "reach fs snk s0 s" "fresh s0" "shape s0" "length fs = length (pools s0)"
    "\<not> panicked s"
  shows "mset (got s) \<subseteq># image_mset (fwd fs 0) (mset (feed s0))"
proof (rule mset_subset_eqI)
  fix x
  have i: "inv fs snk s0 s"
    by (rule inv_reach [OF assms(1) fresh_inv [OF assms(2,3)] assms(4)])
  then have "pending fs x s = pending fs x s0" using assms(5) by (simp add: inv_def)
  then have "occ id x (got s) \<le> occ (fwd fs 0) x (feed s0)"
    using got_le_pending [of x s fs] fresh_pending [OF assms(2), of fs x] by simp
  then show "count (mset (got s)) x \<le> count (image_mset (fwd fs 0) (mset (feed s0))) x"
    by (simp add: occ_count)
qed

lemma got_all:
  assumes "reach fs snk s0 s" "fresh s0" "shape s0" "length fs = length (pools s0)"
    "\<forall>k<length (pools s0). pools s0 ! k \<noteq> []"
    "\<not> panicked s" "sink_done s" "\<forall>e\<in>set (got s). snk e = Take"
  shows "mset (got s) = image_mset (fwd fs 0) (mset (feed s0))"
proof (rule multiset_eqI)
  fix x
  have i: "inv fs snk s0 s"
    by (rule inv_reach [OF assms(1) fresh_inv [OF assms(2,3)] assms(4)])
  have sh: "shape s" and ci: "closure_inv s" and w: "map length (pools s) = map length (pools s0)"
    and si: "sink_inv snk s" and pe: "pending fs x s = pending fs x s0"
    using i assms(6) by (simp_all add: inv_def)
  have len: "length (pools s) = length (pools s0)" using w by (metis length_map)
  have ne: "\<forall>k<length (pools s). pools s ! k \<noteq> []"
  proof (intro allI impI)
    fix k assume k: "k < length (pools s)"
    have "length (pools s ! k) = map length (pools s) ! k" using k by simp
    also have "\<dots> = length (pools s0 ! k)" using k len w by simp
    finally show "pools s ! k \<noteq> []" using assms(5) k len by auto
  qed
  have cl: "closed (chans s ! length (pools s))" "buf (chans s ! length (pools s)) = []"
    using si assms(7,8) by (simp_all add: sink_inv_def)
  have "pending fs x s = occ id x (got s)"
    by (rule drained_pending [OF sh ci ne cl])
  then have "occ id x (got s) = occ (fwd fs 0) x (feed s0)"
    using pe fresh_pending [OF assms(2), of fs x] by simp
  then show "count (mset (got s)) x = count (image_mset (fwd fs 0) (mset (feed s0))) x"
    by (simp add: occ_count)
qed

lemma ifuel_set_buf:
  "k < length (chans s) \<Longrightarrow>
   ifuel (set_buf k b s) =
     ifuel s + (2 * (int (length (pools s)) - int k) + 1) * (int (length b) - int (length (buf (chans s ! k))))"
  by (simp add: ifuel_def csum_update cfuel_def algebra_simps)

lemma ifuel_set_worker:
  "k < length (pools s) \<Longrightarrow> j < length (pools s ! k) \<Longrightarrow>
   ifuel (set_worker k j w s) =
     ifuel s - wfuel (length (pools s)) k (pools s ! k ! j) + wfuel (length (pools s)) k w"
  by (simp add: ifuel_def csum_update)

lemma ifuel_close:
  "k < length (chans s) \<Longrightarrow> \<not> closed (chans s ! k) \<Longrightarrow> ifuel (close_chan k s) = ifuel s - 1"
  by (simp add: ifuel_def csum_update cfuel_def)

lemma ifuel_panic: "\<not> panicked s \<Longrightarrow> ifuel (panic s) = ifuel s - 1"
  by (simp add: ifuel_def)

lemma ifuel_feed:
  "feed s = e # es \<Longrightarrow> ifuel (s\<lparr>feed := es\<rparr>) = ifuel s - (2 * int (length (pools s)) + 2)"
  by (simp add: ifuel_def algebra_simps)

lemma ifuel_deliver:
  assumes "k < length (pools s)" "j < length (pools s ! k)" "pools s ! k ! j = Recv" "\<not> panicked s"
  shows "ifuel (deliver f e k j s) \<le> ifuel s + 2 * (int (length (pools s)) - int k)"
  using assms by (cases "f e") (simp_all add: deliver_def ifuel_set_worker ifuel_panic)

lemma ifuel_sink_take:
  assumes "\<not> panicked s"
  shows "ifuel (sink_take snk e s) \<le> ifuel s"
  using assms by (cases "snk e") (simp_all add: sink_take_def ifuel_def)

lemma ifuel_step:
  assumes "exec fs snk c s = Some s'" "shape s"
  shows "ifuel s' < ifuel s"
  using assms(1)
proof (cases rule: exec_cases)
  case FeedClose
  have "0 < length (chans s)" using assms(2) by (simp add: shape_def)
  then show ?thesis unfolding FeedClose(4) using FeedClose(3) by (simp add: ifuel_close)
next
  case (FeedPut e es)
  have "0 < length (chans (s\<lparr>feed := es\<rparr>))" using assms(2) by (simp add: shape_def)
  then show ?thesis
    unfolding FeedPut(5) using FeedPut(2) by (simp add: ifuel_set_buf ifuel_feed)
next
  case (FeedPanic e es)
  then show ?thesis by (simp add: ifuel_panic)
next
  case (FeedTo e es j)
  have "ifuel (deliver (fs ! 0) e 0 j (s\<lparr>feed := es\<rparr>))
        \<le> ifuel (s\<lparr>feed := es\<rparr>) + 2 * (int (length (pools (s\<lparr>feed := es\<rparr>))) - int 0)"
    by (rule ifuel_deliver) (use FeedTo in simp_all)
  then show ?thesis unfolding FeedTo(8) using FeedTo(2) by (simp add: ifuel_feed)
next
  case (Recv k j e es)
  have kc: "k < length (chans s)" using Recv(2) assms(2) by (simp add: shape_def)
  have "ifuel (deliver (fs ! k) e k j (set_buf k es s))
        \<le> ifuel (set_buf k es s) + 2 * (int (length (pools (set_buf k es s))) - int k)"
    by (rule ifuel_deliver) (use Recv in simp_all)
  then show ?thesis unfolding Recv(6) using Recv(5) kc by (simp add: ifuel_set_buf)
next
  case (Exit k j)
  then show ?thesis by (simp add: ifuel_set_worker)
next
  case (Put k j e)
  have kc: "Suc k < length (chans s)" using Put(2) assms(2) by (simp add: shape_def)
  show ?thesis unfolding Put(7) using Put(2,3,4) kc
    by (simp add: ifuel_set_worker ifuel_set_buf)
next
  case (PutPanic k j e)
  then show ?thesis by (simp add: ifuel_panic)
next
  case (Hand k j j' e)
  have kp: "k < length (pools s)" using Hand(2) by simp
  have "ifuel (deliver (fs ! Suc k) e (Suc k) j' (set_worker k j Recv s))
        \<le> ifuel (set_worker k j Recv s)
            + 2 * (int (length (pools (set_worker k j Recv s))) - int (Suc k))"
    by (rule ifuel_deliver) (use Hand in simp_all)
  then show ?thesis unfolding Hand(9) using Hand(3,5) kp by (simp add: ifuel_set_worker)
next
  case (HandSink k j e)
  have kp: "k < length (pools s)" using HandSink(2) by simp
  have "ifuel (sink_take snk e (set_worker k j Recv s)) \<le> ifuel (set_worker k j Recv s)"
    by (rule ifuel_sink_take) (simp add: HandSink(1))
  then show ?thesis unfolding HandSink(8) using HandSink(3,5) kp HandSink(2) [symmetric]
    by (simp add: ifuel_set_worker)
next
  case (Close k)
  have kc: "Suc k < length (chans s)" using Close(2) assms(2) by (simp add: shape_def)
  show ?thesis unfolding Close(5) using Close(4) kc by (simp add: ifuel_close)
next
  case (SinkRecv e es)
  have kc: "length (pools s) < length (chans s)" using assms(2) by (simp add: shape_def)
  have "ifuel (sink_take snk e (set_buf (length (pools s)) es s))
        \<le> ifuel (set_buf (length (pools s)) es s)"
    by (rule ifuel_sink_take) (simp add: SinkRecv(1))
  then show ?thesis unfolding SinkRecv(4) using SinkRecv(3) kc by (simp add: ifuel_set_buf)
next
  case SinkEnd
  then show ?thesis by (simp add: ifuel_def)
qed

lemma wfuel_nonneg: "k < n \<Longrightarrow> 0 \<le> wfuel n k w"
  by (cases w) simp_all

lemma ifuel_nonneg:
  assumes "shape s"
  shows "0 \<le> ifuel s"
proof -
  have "0 \<le> csum (cfuel (length (pools s))) (chans s)"
    using assms by (intro csum_nonneg) (simp add: cfuel_def shape_def)
  moreover have "0 \<le> csum (\<lambda>k p. csum (\<lambda>j w. wfuel (length (pools s)) k w) p) (pools s)"
    by (intro csum_nonneg wfuel_nonneg)
  ultimately show ?thesis by (simp add: ifuel_def)
qed

lemma fuel_step:
  assumes "exec fs snk c s = Some s'" "shape s"
  shows "fuel s' < fuel s"
  using ifuel_step [OF assms] ifuel_nonneg [OF shape_step [OF assms]] by (simp add: fuel_def)

lemma wstate_pool_cases:
  obtains (all_exited) "\<forall>j<length p. p ! j = Exited"
  | (sending) j e where "j < length p" "p ! j = Send e"
  | (receiving) j where "j < length p" "p ! j = Recv"
proof (cases "\<forall>j<length p. p ! j = Exited")
  case True
  then show ?thesis by (rule all_exited)
next
  case False
  then obtain j where j: "j < length p" "p ! j \<noteq> Exited" by auto
  then show ?thesis using sending receiving by (cases "p ! j") auto
qed

lemma progress_down:
  assumes "\<not> panicked s" "shape s" "0 < length (pools s)"
  shows "k \<le> length (pools s) \<Longrightarrow> buf (chans s ! k) = [] \<Longrightarrow> \<not> closed (chans s ! k) \<Longrightarrow>
         waiting s k \<Longrightarrow> \<exists>c s'. exec fs snk c s = Some s'"
proof (induction k)
  case 0
  from 0(4) assms(3) obtain j where j: "j < length (pools s ! 0)" "pools s ! 0 ! j = Recv"
    by (auto simp: waiting_def)
  show ?case
  proof (cases "feed s")
    case Nil
    then have "exec fs snk Feeder s = Some (close_chan 0 s)"
      using assms(1) 0(3) by (simp add: exec_def feeder_step_def)
    then show ?thesis by blast
  next
    case (Cons e es)
    then have "exec fs snk (FeederTo j) s = Some (deliver (fs ! 0) e 0 j (s\<lparr>feed := es\<rparr>))"
      using assms(1,3) 0(2,3) j by (simp add: exec_def feeder_to_def)
    then show ?thesis by blast
  qed
next
  case (Suc k)
  have k: "k < length (pools s)" using Suc.prems(1) by simp
  show ?case
  proof (cases rule: wstate_pool_cases [of "pools s ! k"])
    case all_exited
    then have "exec fs snk (Closer k) s = Some (close_chan (Suc k) s)"
      using assms(1) k Suc.prems(3)
      by (simp add: exec_def closer_step_def list_all_length)
    then show ?thesis by blast
  next
    case (sending j e)
    show ?thesis
    proof (cases "Suc k = length (pools s)")
      case True
      then have "\<not> sink_done s" using Suc.prems(4) by (simp add: waiting_def)
      then have "exec fs snk (WorkerToSink j) s = Some (sink_take snk e (set_worker k j Recv s))"
        using assms(1) True [symmetric] sending Suc.prems(2,3)
        by (simp add: exec_def worker_to_sink_def)
      then show ?thesis by blast
    next
      case False
      then have k': "Suc k < length (pools s)" using Suc.prems(1) by simp
      from Suc.prems(4) False obtain j' where
        j': "j' < length (pools s ! Suc k)" "pools s ! Suc k ! j' = Recv"
        by (auto simp: waiting_def)
      have "exec fs snk (WorkerTo k j j') s
            = Some (deliver (fs ! Suc k) e (Suc k) j' (set_worker k j Recv s))"
        using assms(1) k' sending j' Suc.prems(2,3) by (simp add: exec_def worker_to_def)
      then show ?thesis by blast
    qed
  next
    case (receiving j)
    show ?thesis
    proof (cases "buf (chans s ! k)")
      case (Cons e es)
      then have "exec fs snk (Worker k j) s = Some (deliver (fs ! k) e k j (set_buf k es s))"
        using assms(1) k receiving by (simp add: exec_def worker_step_def)
      then show ?thesis by blast
    next
      case Nil
      show ?thesis
      proof (cases "closed (chans s ! k)")
        case True
        then have "exec fs snk (Worker k j) s = Some (set_worker k j Exited s)"
          using assms(1) k receiving Nil by (simp add: exec_def worker_step_def)
        then show ?thesis by blast
      next
        case False
        have "waiting s k" using k receiving by (auto simp: waiting_def)
        then show ?thesis using Suc.IH k Nil False by simp
      qed
    qed
  qed
qed

lemma progress:
  assumes "\<not> panicked s" "shape s" "0 < length (pools s)" "\<not> sink_done s"
  shows "\<exists>s'. step fs snk s s'"
proof (cases "buf (chans s ! length (pools s))")
  case (Cons e es)
  then have "exec fs snk Sink s = Some (sink_take snk e (set_buf (length (pools s)) es s))"
    using assms(1,4) by (simp add: exec_def sink_step_def)
  then show ?thesis unfolding step_def by blast
next
  case Nil
  show ?thesis
  proof (cases "closed (chans s ! length (pools s))")
    case True
    then have "exec fs snk Sink s = Some (s\<lparr>sink_done := True\<rparr>)"
      using assms(1,4) Nil by (simp add: exec_def sink_step_def)
    then show ?thesis unfolding step_def by blast
  next
    case False
    have "waiting s (length (pools s))" using assms(4) by (simp add: waiting_def)
    then have "\<exists>c s'. exec fs snk c s = Some s'"
      using progress_down [OF assms(1,2,3), of "length (pools s)"] Nil False by simp
    then show ?thesis unfolding step_def by blast
  qed
qed

lemma good_step:
  assumes "k < length fs" "good fs snk k e"
  obtains e' where "(fs ! k) e = Some e'" "good fs snk (Suc k) e'"
proof -
  have "drop k fs = fs ! k # drop (Suc k) fs" using assms(1) by (simp add: Cons_nth_drop_Suc)
  then have "case (fs ! k) e of None \<Rightarrow> False | Some e' \<Rightarrow> passes (drop (Suc k) fs) snk e'"
    using assms(2) by (simp add: good_def)
  then show ?thesis using that by (auto simp: good_def split: option.splits)
qed

lemma good_end: "length fs \<le> k \<Longrightarrow> good fs snk k e \<Longrightarrow> snk e \<noteq> Crash"
  by (simp add: good_def)

lemma gi_cong:
  "feed s' = feed s \<Longrightarrow> chans s' = chans s \<Longrightarrow> pools s' = pools s \<Longrightarrow>
   good_inv fs snk s' = good_inv fs snk s"
  by (simp add: good_inv_def)

lemma gi_set_buf:
  assumes "good_inv fs snk s" "\<forall>e\<in>set b. good fs snk k e"
  shows "good_inv fs snk (set_buf k b s)"
  using assms by (auto simp: good_inv_def split: if_splits)

lemma gi_set_worker:
  assumes "good_inv fs snk s" "\<And>e. w = Send e \<Longrightarrow> good fs snk (Suc k) e"
  shows "good_inv fs snk (set_worker k j w s)"
  using assms by (auto simp: good_inv_def split: if_splits)

lemma gi_feed:
  assumes "good_inv fs snk s" "feed s = e # es"
  shows "good_inv fs snk (s\<lparr>feed := es\<rparr>)" "good fs snk 0 e"
  using assms by (auto simp: good_inv_def)

lemma gi_close: "good_inv fs snk (close_chan k s) = good_inv fs snk s"
  by (auto simp: good_inv_def)

lemma gi_sink_take: "good_inv fs snk (sink_take snk' e s) = good_inv fs snk s"
  by (rule gi_cong) simp_all

lemma gi_buf:
  assumes "good_inv fs snk s" "k < length (chans s)" "buf (chans s ! k) = e # es"
  shows "good fs snk k e" "\<forall>e\<in>set es. good fs snk k e"
  using assms by (auto simp: good_inv_def)

lemma gi_held:
  assumes "good_inv fs snk s" "k < length (pools s)" "j < length (pools s ! k)"
    "pools s ! k ! j = Send e"
  shows "good fs snk (Suc k) e"
  using assms by (auto simp: good_inv_def)

lemma gi_deliver:
  assumes "good_inv fs snk s" "k < length fs" "good fs snk k e"
  shows "good_inv fs snk (deliver (fs ! k) e k j s) \<and>
         panicked (deliver (fs ! k) e k j s) = panicked s"
proof -
  from good_step [OF assms(2,3)] obtain e' where
    e': "(fs ! k) e = Some e'" "good fs snk (Suc k) e'" by blast
  have "good_inv fs snk (set_worker k j (Send e') s)"
    by (rule gi_set_worker [OF assms(1)]) (simp add: e'(2))
  then show ?thesis using e'(1) by (simp add: deliver_def)
qed

lemma safe_step:
  assumes "exec fs snk c s = Some s'" "shape s" "closure_inv s" "good_inv fs snk s"
    "length fs = length (pools s)"
  shows "good_inv fs snk s' \<and> \<not> panicked s'"
  using assms(1)
proof (cases rule: exec_cases)
  case FeedClose
  then show ?thesis using assms(4) by (simp add: gi_close)
next
  case (FeedPut e es)
  note f = gi_feed [OF assms(4) FeedPut(2)]
  have "0 < length (chans (s\<lparr>feed := es\<rparr>))" using assms(2) by (simp add: shape_def)
  then have "\<forall>x\<in>set (buf (chans s ! 0) @ [e]). good fs snk 0 x"
    using f(1,2) by (auto simp: good_inv_def)
  then show ?thesis unfolding FeedPut(5) using f(1) FeedPut(1) by (simp add: gi_set_buf)
next
  case (FeedPanic e es)
  then show ?thesis using assms(3) by (simp add: closure_inv_def)
next
  case (FeedTo e es j)
  note f = gi_feed [OF assms(4) FeedTo(2)]
  have "0 < length fs" using FeedTo(3) assms(5) by simp
  then show ?thesis unfolding FeedTo(8)
    using gi_deliver [OF f(1) _ f(2), of j] FeedTo(1) by simp
next
  case (Recv k j e es)
  have kc: "k < length (chans s)" using Recv(2) assms(2) by (simp add: shape_def)
  have kf: "k < length fs" using Recv(2) assms(5) by simp
  note b = gi_buf [OF assms(4) kc Recv(5)]
  have "good_inv fs snk (set_buf k es s)" by (rule gi_set_buf [OF assms(4) b(2)])
  then show ?thesis unfolding Recv(6)
    using gi_deliver [OF _ kf b(1), of "set_buf k es s" j] Recv(1) by simp
next
  case (Exit k j)
  have "good_inv fs snk (set_worker k j Exited s)"
    by (rule gi_set_worker [OF assms(4)]) simp
  then show ?thesis unfolding Exit(7) using Exit(1) by simp
next
  case (Put k j e)
  have kc: "Suc k < length (chans s)" using Put(2) assms(2) by (simp add: shape_def)
  have g: "good fs snk (Suc k) e" by (rule gi_held [OF assms(4) Put(2,3,4)])
  have "\<forall>x\<in>set (buf (chans s ! Suc k) @ [e]). good fs snk (Suc k) x"
    using g assms(4) kc by (auto simp: good_inv_def)
  then have "good_inv fs snk (set_buf (Suc k) (buf (chans s ! Suc k) @ [e]) s)"
    by (rule gi_set_buf [OF assms(4)])
  then have "good_inv fs snk (set_worker k j Recv (set_buf (Suc k) (buf (chans s ! Suc k) @ [e]) s))"
    by (rule gi_set_worker) simp
  then show ?thesis unfolding Put(7) using Put(1) by simp
next
  case (PutPanic k j e)
  then show ?thesis using assms(3) by (auto simp: closure_inv_def)
next
  case (Hand k j j' e)
  have kp: "k < length (pools s)" using Hand(2) by simp
  have kf: "Suc k < length fs" using Hand(2) assms(5) by simp
  have g: "good fs snk (Suc k) e" by (rule gi_held [OF assms(4) kp Hand(3,5)])
  have "good_inv fs snk (set_worker k j Recv s)"
    by (rule gi_set_worker [OF assms(4)]) simp
  then show ?thesis unfolding Hand(9)
    using gi_deliver [OF _ kf g, of "set_worker k j Recv s" j'] Hand(1) by simp
next
  case (HandSink k j e)
  have kp: "k < length (pools s)" using HandSink(2) by simp
  have g: "good fs snk (Suc k) e" by (rule gi_held [OF assms(4) kp HandSink(3,5)])
  have "snk e \<noteq> Crash" using good_end [OF _ g] HandSink(2) assms(5) by simp
  moreover have "good_inv fs snk (set_worker k j Recv s)"
    by (rule gi_set_worker [OF assms(4)]) simp
  ultimately show ?thesis unfolding HandSink(8) using HandSink(1)
    by (simp add: gi_sink_take panicked_sink_take)
next
  case (Close k)
  then show ?thesis using assms(4) by (simp add: gi_close)
next
  case (SinkRecv e es)
  have kc: "length (pools s) < length (chans s)" using assms(2) by (simp add: shape_def)
  note b = gi_buf [OF assms(4) kc SinkRecv(3)]
  have "snk e \<noteq> Crash" using good_end [OF _ b(1)] assms(5) by simp
  moreover have "good_inv fs snk (set_buf (length (pools s)) es s)"
    by (rule gi_set_buf [OF assms(4) b(2)])
  ultimately show ?thesis unfolding SinkRecv(4) using SinkRecv(1)
    by (simp add: gi_sink_take panicked_sink_take)
next
  case SinkEnd
  then show ?thesis using assms(4) by (simp add: good_inv_def)
qed

lemma fresh_good:
  assumes "fresh s" "\<forall>e\<in>set (feed s). good fs snk 0 e"
  shows "good_inv fs snk s"
  using assms by (auto simp: good_inv_def fresh_def)

lemma safe_reach:
  assumes "reach fs snk s0 s" "ready fs s0" "\<forall>e\<in>set (feed s0). good fs snk 0 e"
  shows "good_inv fs snk s \<and> \<not> panicked s \<and> inv fs snk s0 s"
  using assms(1) unfolding reach_def
proof (induction rule: rtranclp_induct)
  case base
  show ?case using assms(2,3) by (simp add: ready_def fresh_good fresh_inv) (simp add: fresh_def)
next
  case (step y z)
  from step(2) obtain c where c: "exec fs snk c y = Some z" by (auto simp: step_def)
  have len: "length fs = length (pools s0)" using assms(2) by (simp add: ready_def)
  have i: "inv fs snk s0 y" using step(3) by simp
  then have "length (pools y) = length (pools s0)" unfolding inv_def by (metis length_map)
  then have "good_inv fs snk z \<and> \<not> panicked z"
    using safe_step [OF c, of ] i step(3) len by (simp add: inv_def)
  moreover have "inv fs snk s0 z" by (rule inv_step [OF i c len])
  ultimately show ?case by simp
qed

lemma reach_shape:
  assumes "reach fs snk s0 s" "ready fs s0"
  shows "shape s" "map length (pools s) = map length (pools s0)"
proof -
  have "inv fs snk s0 s"
    using inv_reach [OF assms(1) fresh_inv] assms(2) by (simp add: ready_def)
  then show "shape s" "map length (pools s) = map length (pools s0)"
    by (simp_all add: inv_def)
qed

lemma reach_fuel:
  assumes "reach fs snk s0 s" "ready fs s0" "step fs snk s s'"
  shows "fuel s' < fuel s"
proof -
  from assms(3) obtain c where c: "exec fs snk c s = Some s'" by (auto simp: step_def)
  show ?thesis by (rule fuel_step [OF c reach_shape(1) [OF assms(1,2)]])
qed

lemma reach_progress:
  assumes "reach fs snk s0 s" "ready fs s0" "\<not> panicked s" "\<not> sink_done s"
  shows "\<exists>s'. step fs snk s s'"
proof -
  have "length (pools s) = length (pools s0)"
    using reach_shape(2) [OF assms(1,2)] by (metis length_map)
  then have "0 < length (pools s)" using assms(2) by (simp add: ready_def)
  then show ?thesis using progress [OF assms(3) reach_shape(1) [OF assms(1,2)] _ assms(4)] by simp
qed

lemma length_indexed [simp]: "length (indexed items) = length items"
  by (simp add: indexed_def)

lemma nth_indexed [simp]:
  "i < length items \<Longrightarrow> indexed items ! i = \<lparr>Index = i, Item = items ! i\<rparr>"
  by (simp add: indexed_def nth_enumerate_eq)

lemma in_indexed:
  "e \<in> set (indexed items) \<longleftrightarrow> (\<exists>i<length items. e = \<lparr>Index = i, Item = items ! i\<rparr>)"
  by (auto simp: in_set_conv_nth)

lemma fold_collect_length [simp]:
  "length (fold (\<lambda>e r. r[Index e := Item e]) es r) = length r"
  by (induction es arbitrary: r) simp_all

lemma fold_collect_untouched:
  "\<forall>e\<in>set es. Index e \<noteq> i \<Longrightarrow> fold (\<lambda>e r. r[Index e := Item e]) es r ! i = r ! i"
  by (induction es arbitrary: r) simp_all

lemma fold_collect_nth:
  assumes "\<forall>e\<in>set es. Index e = i \<longrightarrow> Item e = v" "\<exists>e\<in>set es. Index e = i" "i < length r"
  shows "fold (\<lambda>e r. r[Index e := Item e]) es r ! i = v"
  using assms
proof (induction es arbitrary: r)
  case Nil
  then show ?case by simp
next
  case (Cons e es)
  show ?case
  proof (cases "\<exists>e'\<in>set es. Index e' = i")
    case True
    then show ?thesis using Cons by simp
  next
    case False
    then have "Index e = i" "Item e = v" using Cons.prems by auto
    then show ?thesis using False Cons.prems(3) by (simp add: fold_collect_untouched)
  qed
qed

lemma collect_eq:
  assumes "set es = (\<lambda>i. \<lparr>Index = i, Item = g (items ! i)\<rparr>) ` {..<length items}"
  shows "Transform_collect z (length items) es = map g items"
proof (rule nth_equalityI)
  show "length (Transform_collect z (length items) es) = length (map g items)"
    by (simp add: Transform_collect_def)
next
  fix i assume "i < length (Transform_collect z (length items) es)"
  then have i: "i < length items" by (simp add: Transform_collect_def)
  have "fold (\<lambda>e r. r[Index e := Item e]) es (replicate (length items) z) ! i = g (items ! i)"
  proof (rule fold_collect_nth)
    show "\<forall>e\<in>set es. Index e = i \<longrightarrow> Item e = g (items ! i)" using assms by auto
    show "\<exists>e\<in>set es. Index e = i" using assms i by force
    show "i < length (replicate (length items) z)" using i by simp
  qed
  then show "Transform_collect z (length items) es ! i = map g items ! i"
    using i by (simp add: Transform_collect_def)
qed

lemma well_typed_passes:
  assumes "well_typed tp actions (Item e)" "Index e < n"
  shows "passes (map (Transform_worker tp) actions) (Transform_sink tp n) e \<and>
         fold (\<lambda>f x. the (f x)) (map (Transform_worker tp) actions) e
           = \<lparr>Index = Index e, Item = apply_all actions (Item e)\<rparr>"
  using assms
proof (induction actions arbitrary: e)
  case Nil
  then show ?case by (simp add: Transform_sink_def apply_all_def)
next
  case (Cons a as)
  let ?e' = "\<lparr>Index = Index e, Item = a (Item e)\<rparr>"
  have w: "Transform_worker tp a e = Some ?e'" using Cons.prems(1) by (simp add: Transform_worker_def)
  have "well_typed tp as (Item ?e')" "Index ?e' < n" using Cons.prems by simp_all
  from Cons.IH [OF this] show ?case using w by (simp add: apply_all_def)
qed

lemma Transform_some:
  "actions \<noteq> [] \<Longrightarrow>
   Transform t caps items actions =
     Some \<lparr>stages = map (Transform_worker (types t)) actions,
           sink = Transform_sink (types t) (length items),
           init = Transform_net t caps items actions\<rparr>"
  by (simp add: Transform_def process_def Transform_net_def)

lemma start_simps [simp]:
  "feed (start items chs pls) = items"
  "chans (start items chs pls) = chs"
  "pools (start items chs pls) = pls"
  "got (start items chs pls) = []"
  "sink_done (start items chs pls) = False"
  "panicked (start items chs pls) = False"
  by (simp_all add: start_def)

lemma new_chan_simps [simp]:
  "buf (new_chan c) = []" "cap (new_chan c) = c" "closed (new_chan c) = False"
  by (simp_all add: new_chan_def)

lemma fresh_start:
  assumes "\<forall>c\<in>set chs. buf c = [] \<and> \<not> closed c" "\<forall>p\<in>set pls. \<forall>w\<in>set p. w = Recv"
  shows "fresh (start items chs pls)"
  using assms by (auto simp: fresh_def all_set_conv_all_nth)

lemma Transform_ready:
  assumes "actions \<noteq> []"
  shows "ready (map (Transform_worker (types t)) actions) (Transform_net t caps items actions)"
proof -
  have "fresh (Transform_net t caps items actions)"
    unfolding Transform_net_def by (rule fresh_start) auto
  then show ?thesis using assms by (simp add: ready_def shape_def) (simp add: Transform_net_def)
qed

lemma Transform_sink_not_Halt: "Transform_sink tp n e \<noteq> Halt"
  by (simp add: Transform_sink_def)

lemma sink_inv_all_Take:
  assumes "sink_inv snk s" "\<And>e. snk e \<noteq> Halt"
  shows "\<forall>e\<in>set (got s). snk e = Take"
proof
  fix e assume e: "e \<in> set (got s)"
  then have ne: "got s \<noteq> []" by auto
  then have "got s = butlast (got s) @ [last (got s)]" by simp
  then have "e \<in> set (butlast (got s)) \<or> e = last (got s)"
    using e by (metis Un_iff insert_iff list.set(2) set_append empty_set empty_iff)
  moreover have "snk (last (got s)) = Take"
    using assms(1) assms(2) [of "last (got s)"] ne
    by (cases "snk (last (got s))") (auto simp: sink_inv_def)
  ultimately show "snk e = Take" using assms(1) by (auto simp: sink_inv_def)
qed

lemma Transform_correct:
  assumes "actions \<noteq> []" "1 \<le> workers t" "\<forall>x\<in>set items. well_typed (types t) actions x"
  shows "\<exists>P. Transform t caps items actions = Some P \<and>
           always_returns P (Transform_outcome t items) (\<lambda>r. r = map (apply_all actions) items)"
proof -
  let ?fs = "map (Transform_worker (types t)) actions"
  let ?snk = "Transform_sink (types t) (length items)"
  let ?s0 = "Transform_net t caps items actions"
  let ?P = "\<lparr>stages = ?fs, sink = ?snk, init = ?s0\<rparr>"
  have rd: "ready ?fs ?s0" by (rule Transform_ready [OF assms(1)])
  have feed0: "feed ?s0 = indexed items" by (simp add: Transform_net_def)
  have wt: "passes ?fs ?snk e \<and>
            fold (\<lambda>f x. the (f x)) ?fs e = \<lparr>Index = Index e, Item = apply_all actions (Item e)\<rparr>"
    if "e \<in> set (indexed items)" for e
  proof -
    from that obtain i where i: "i < length items" "e = \<lparr>Index = i, Item = items ! i\<rparr>"
      by (auto simp: in_indexed)
    then have "well_typed (types t) actions (Item e)" "Index e < length items"
      using assms(3) by simp_all
    then show ?thesis by (rule well_typed_passes)
  qed
  have gd: "\<forall>e\<in>set (feed ?s0). good ?fs ?snk 0 e"
    using wt by (simp add: feed0 good_def)
  have ne: "\<forall>k<length (pools ?s0). pools ?s0 ! k \<noteq> []"
    using assms(2) by (auto simp: Transform_net_def)
  have main: "\<not> panicked s \<and> (sink_done s \<or> (\<exists>s'. step ?fs ?snk s s')) \<and>
        (\<forall>s'. step ?fs ?snk s s' \<longrightarrow> fuel s' < fuel s) \<and>
        (sink_done s \<longrightarrow> (\<exists>r. Transform_outcome t items s = Returned r \<and>
            r = map (apply_all actions) items))"
    if r: "reach ?fs ?snk ?s0 s" for s
  proof -
    note sr = safe_reach [OF r rd gd]
    have np: "\<not> panicked s" using sr by simp
    have si: "sink_inv ?snk s" using sr by (simp add: inv_def)
    have pr: "sink_done s \<or> (\<exists>s'. step ?fs ?snk s s')"
      using reach_progress [OF r rd np] by blast
    have fu: "\<forall>s'. step ?fs ?snk s s' \<longrightarrow> fuel s' < fuel s"
      using reach_fuel [OF r rd] by blast
    have res: "Transform_outcome t items s = Returned (map (apply_all actions) items)"
      if sd: "sink_done s"
    proof -
      have tk: "\<forall>e\<in>set (got s). ?snk e = Take"
        by (rule sink_inv_all_Take [OF si Transform_sink_not_Halt])
      have rdy: "fresh ?s0" "shape ?s0" "length ?fs = length (pools ?s0)"
        using rd by (simp_all add: ready_def)
      have "mset (got s) = image_mset (fwd ?fs 0) (mset (feed ?s0))"
        by (rule got_all [OF r rdy ne np sd tk])
      then have "set (got s) = fwd ?fs 0 ` set (indexed items)"
        unfolding feed0 by (metis set_image_mset set_mset_mset)
      also have "\<dots> = (\<lambda>e. \<lparr>Index = Index e, Item = apply_all actions (Item e)\<rparr>) ` set (indexed items)"
        by (rule image_cong) (simp_all add: fwd_def wt)
      also have "\<dots> = (\<lambda>i. \<lparr>Index = i, Item = apply_all actions (items ! i)\<rparr>) ` {..<length items}"
      proof (intro set_eqI iffI)
        fix y assume "y \<in> (\<lambda>e. \<lparr>Index = Index e, Item = apply_all actions (Item e)\<rparr>) ` set (indexed items)"
        then obtain i where "i < length items" "y = \<lparr>Index = i, Item = apply_all actions (items ! i)\<rparr>"
          by (auto simp: in_indexed)
        then show "y \<in> (\<lambda>i. \<lparr>Index = i, Item = apply_all actions (items ! i)\<rparr>) ` {..<length items}"
          by simp
      next
        fix y assume "y \<in> (\<lambda>i. \<lparr>Index = i, Item = apply_all actions (items ! i)\<rparr>) ` {..<length items}"
        then obtain i where i: "i < length items" "y = \<lparr>Index = i, Item = apply_all actions (items ! i)\<rparr>"
          by auto
        then have "\<lparr>Index = i, Item = items ! i\<rparr> \<in> set (indexed items)"
          unfolding in_indexed by blast
        then show "y \<in> (\<lambda>e. \<lparr>Index = Index e, Item = apply_all actions (Item e)\<rparr>) ` set (indexed items)"
          using i(2) by (metis (mono_tags, lifting) IndexedItem.select_convs(1,2) image_eqI)
      qed
      finally have "Transform_collect (zero (types t)) (length items) (got s)
                    = map (apply_all actions) items"
        by (rule collect_eq)
      then show ?thesis using sd by (simp add: Transform_outcome_def)
    qed
    show ?thesis using np pr fu res by simp
  qed
  have "always_returns ?P (Transform_outcome t items) (\<lambda>r. r = map (apply_all actions) items)"
    unfolding always_returns_def using main by simp
  then show ?thesis using Transform_some [OF assms(1)] by blast
qed

lemma always_returns_mono:
  assumes "always_returns P out Q" "\<And>r. Q r \<Longrightarrow> Q' r"
  shows "always_returns P out Q'"
  using assms unfolding always_returns_def by blast

lemma idle_cong:
  "got s' = got s \<Longrightarrow> pools s' = pools s \<Longrightarrow>
   (\<And>k. k < length (pools s) \<Longrightarrow> buf (chans s' ! Suc k) = buf (chans s ! Suc k)) \<Longrightarrow>
   idle s \<Longrightarrow> idle s'"
  by (simp add: idle_def)

lemma idle_no_worker: "idle s \<Longrightarrow> k < length (pools s) \<Longrightarrow> j < length (pools s ! k) \<Longrightarrow> False"
  by (simp add: idle_def)

lemma idle_step:
  assumes "exec fs snk c s = Some s'" "closure_inv s" "idle s" "0 < length (pools s)"
  shows "idle s' \<and> \<not> panicked s'"
  using assms(1)
proof (cases rule: exec_cases)
  case FeedClose
  have "idle (close_chan 0 s)" by (rule idle_cong [OF _ _ _ assms(3)]) simp_all
  then show ?thesis using FeedClose by simp
next
  case (FeedPut e es)
  have "idle (set_buf 0 (buf (chans s ! 0) @ [e]) (s\<lparr>feed := es\<rparr>))"
    by (rule idle_cong [OF _ _ _ assms(3)]) simp_all
  then show ?thesis using FeedPut by simp
next
  case (FeedPanic e es)
  then show ?thesis using assms(2) by (simp add: closure_inv_def)
next
  case (FeedTo e es j)
  then show ?thesis using idle_no_worker [OF assms(3), of 0 j] by simp
next
  case (Recv k j e es)
  then show ?thesis using idle_no_worker [OF assms(3), of k j] by simp
next
  case (Exit k j)
  then show ?thesis using idle_no_worker [OF assms(3), of k j] by simp
next
  case (Put k j e)
  then show ?thesis using idle_no_worker [OF assms(3), of k j] by simp
next
  case (PutPanic k j e)
  then show ?thesis using idle_no_worker [OF assms(3), of k j] by simp
next
  case (Hand k j j' e)
  then show ?thesis using idle_no_worker [OF assms(3), of k j] by simp
next
  case (HandSink k j e)
  then show ?thesis using idle_no_worker [OF assms(3), of k j] by simp
next
  case (Close k)
  have "idle (close_chan (Suc k) s)" by (rule idle_cong [OF _ _ _ assms(3)]) simp_all
  then show ?thesis using Close by simp
next
  case (SinkRecv e es)
  have "length (pools s) - 1 < length (pools s)" using assms(4) by simp
  then have "buf (chans s ! Suc (length (pools s) - 1)) = []"
    using assms(3) unfolding idle_def by blast
  then show ?thesis using SinkRecv(3) assms(4) by simp
next
  case SinkEnd
  have "idle (s\<lparr>sink_done := True\<rparr>)" by (rule idle_cong [OF _ _ _ assms(3)]) simp_all
  then show ?thesis using SinkEnd by simp
qed

lemma idle_reach:
  assumes "reach fs snk s0 s" "ready fs s0" "idle s0"
  shows "idle s \<and> \<not> panicked s"
  using assms(1)
proof -
  have i0: "inv fs snk s0 s0" using assms(2) by (simp add: ready_def fresh_inv)
  have len: "length fs = length (pools s0)" using assms(2) by (simp add: ready_def)
  have "idle s \<and> \<not> panicked s"
    using assms(1) unfolding reach_def
  proof (induction rule: rtranclp_induct)
    case base
    show ?case using assms(2,3) by (simp add: ready_def fresh_def)
  next
    case (step y z)
    from step(2) obtain c where c: "exec fs snk c y = Some z" by (auto simp: step_def)
    have ry: "reach fs snk s0 y" using step(1) by (simp add: reach_def)
    have iy: "inv fs snk s0 y" by (rule inv_reach [OF ry i0 len])
    have "length (pools y) = length (pools s0)" using iy unfolding inv_def by (metis length_map)
    then have "0 < length (pools y)" using assms(2) by (simp add: ready_def)
    moreover have "closure_inv y" using iy by (simp add: inv_def)
    ultimately show ?case using idle_step [OF c] step(3) by simp
  qed
  then show ?thesis by simp
qed

lemma Transform_idle:
  assumes "workers t \<le> 0" "actions \<noteq> []"
  shows "\<exists>P. Transform t caps items actions = Some P \<and>
           (\<forall>k<length actions. pools (init P) ! k = []) \<and>
           always_returns P (Transform_outcome t items)
             (\<lambda>r. r = replicate (length items) (zero (types t)))"
proof -
  let ?fs = "map (Transform_worker (types t)) actions"
  let ?snk = "Transform_sink (types t) (length items)"
  let ?s0 = "Transform_net t caps items actions"
  let ?P = "\<lparr>stages = ?fs, sink = ?snk, init = ?s0\<rparr>"
  have rd: "ready ?fs ?s0" by (rule Transform_ready [OF assms(2)])
  have em: "\<forall>k<length actions. pools ?s0 ! k = []"
    using assms(1) by (simp add: Transform_net_def)
  have id: "idle ?s0" using assms(1) by (simp add: idle_def Transform_net_def)
  have main: "\<not> panicked s \<and> (sink_done s \<or> (\<exists>s'. step ?fs ?snk s s')) \<and>
        (\<forall>s'. step ?fs ?snk s s' \<longrightarrow> fuel s' < fuel s) \<and>
        (sink_done s \<longrightarrow> (\<exists>r. Transform_outcome t items s = Returned r \<and>
            r = replicate (length items) (zero (types t))))"
    if r: "reach ?fs ?snk ?s0 s" for s
  proof -
    note ir = idle_reach [OF r rd id]
    have np: "\<not> panicked s" using ir by simp
    have pr: "sink_done s \<or> (\<exists>s'. step ?fs ?snk s s')"
      using reach_progress [OF r rd np] by blast
    have fu: "\<forall>s'. step ?fs ?snk s s' \<longrightarrow> fuel s' < fuel s"
      using reach_fuel [OF r rd] by blast
    have "got s = []" using ir by (simp add: idle_def)
    then have "sink_done s \<longrightarrow>
        Transform_outcome t items s = Returned (replicate (length items) (zero (types t)))"
      by (simp add: Transform_outcome_def Transform_collect_def)
    then show ?thesis using np pr fu by simp
  qed
  have "always_returns ?P (Transform_outcome t items)
          (\<lambda>r. r = replicate (length items) (zero (types t)))"
    unfolding always_returns_def using main by simp
  then show ?thesis using Transform_some [OF assms(2), of t caps items] em by simp
qed

lemma collect_general:
  assumes "\<forall>e\<in>set es. Item e = g (items ! Index e)" "\<forall>i<length items. \<exists>e\<in>set es. Index e = i"
  shows "Transform_collect z (length items) es = map g items"
proof (rule nth_equalityI)
  show "length (Transform_collect z (length items) es) = length (map g items)"
    by (simp add: Transform_collect_def)
next
  fix i assume "i < length (Transform_collect z (length items) es)"
  then have i: "i < length items" by (simp add: Transform_collect_def)
  have "fold (\<lambda>e r. r[Index e := Item e]) es (replicate (length items) z) ! i = g (items ! i)"
  proof (rule fold_collect_nth)
    show "\<forall>e\<in>set es. Index e = i \<longrightarrow> Item e = g (items ! i)" using assms(1) by auto
    show "\<exists>e\<in>set es. Index e = i" using assms(2) i by simp
    show "i < length (replicate (length items) z)" using i by simp
  qed
  then show "Transform_collect z (length items) es ! i = map g items ! i"
    using i by (simp add: Transform_collect_def)
qed

lemma TransformWithError_some:
  "actions \<noteq> [] \<Longrightarrow>
   TransformWithError t caps items actions =
     Some \<lparr>stages = map (TransformWithError_worker (types t)) actions,
           sink = TransformWithError_sink (types t) (length items),
           init = TransformWithError_net t caps items actions\<rparr>"
  by (simp add: TransformWithError_def process_def TransformWithError_net_def)

lemma TransformWithError_ready:
  assumes "actions \<noteq> []"
  shows "ready (map (TransformWithError_worker (types t)) actions)
           (TransformWithError_net t caps items actions)"
proof -
  have "fresh (TransformWithError_net t caps items actions)"
    unfolding TransformWithError_net_def by (rule fresh_start) auto
  then show ?thesis using assms
    by (simp add: ready_def shape_def) (simp add: TransformWithError_net_def)
qed

lemma length_indexed_with_error [simp]: "length (indexed_with_error items) = length items"
  by (simp add: indexed_with_error_def)

lemma nth_indexed_with_error [simp]:
  "i < length items \<Longrightarrow> indexed_with_error items ! i = \<lparr>Index = i, Item = items ! i, Err = None\<rparr>"
  by (simp add: indexed_with_error_def nth_enumerate_eq)

lemma in_indexed_with_error:
  "e \<in> set (indexed_with_error items) \<longleftrightarrow>
     (\<exists>i<length items. e = \<lparr>Index = i, Item = items ! i, Err = None\<rparr>)"
  by (auto simp: in_set_conv_nth)

lemma well_typed_err_passes:
  assumes "well_typed_err tp actions (Item e, Err e)" "Index e < n"
  shows "passes (map (TransformWithError_worker tp) actions) (TransformWithError_sink tp n) e \<and>
         fold (\<lambda>f x. the (f x)) (map (TransformWithError_worker tp) actions) e
           = \<lparr>Index = Index e, Item = fst (run_actions actions (Item e, Err e)),
              Err = snd (run_actions actions (Item e, Err e))\<rparr>"
  using assms
proof (induction actions arbitrary: e)
  case Nil
  then show ?case by (auto simp: TransformWithError_sink_def)
next
  case (Cons a as)
  let ?e' = "\<lparr>Index = Index e, Item = fst (a (Item e)), Err = snd (a (Item e))\<rparr>"
  have w: "TransformWithError_worker tp a e = Some ?e'"
    using Cons.prems(1) by (simp add: TransformWithError_worker_def split: prod.splits)
  have "well_typed_err tp as (Item ?e', Err ?e')" "Index ?e' < n" using Cons.prems by simp_all
  from Cons.IH [OF this] show ?case using w by simp
qed

lemma collect_no_error:
  "\<forall>e\<in>set es. Err e = None \<Longrightarrow>
   TransformWithError_collect r es = (Some (fold (\<lambda>e r. r[Index e := Item e]) es r), None)"
  by (induction es arbitrary: r) simp_all

lemma collect_error_last:
  "\<forall>e\<in>set pre. Err e = None \<Longrightarrow> Err e \<noteq> None \<Longrightarrow>
   TransformWithError_collect r (pre @ [e]) = (None, Err e)"
  by (induction pre arbitrary: r) simp_all

lemma collect_all_or_nothing:
  "snd (TransformWithError_collect r es) \<noteq> None \<Longrightarrow> fst (TransformWithError_collect r es) = None"
  by (induction es arbitrary: r) (simp_all split: if_splits)

lemma TransformWithError_sink_Take:
  "TransformWithError_sink tp n e = Take \<Longrightarrow> Err e = None"
  by (simp add: TransformWithError_sink_def split: if_splits)

lemma TransformWithError_sink_Halt:
  "TransformWithError_sink tp n e = Halt \<longleftrightarrow> Err e \<noteq> None"
  by (simp add: TransformWithError_sink_def)

lemma sink_inv_Take_or_last:
  assumes "sink_inv snk s" "e \<in> set (got s)"
  shows "snk e = Take \<or> (e = last (got s) \<and> snk e = Halt)"
proof -
  have ne: "got s \<noteq> []" using assms(2) by auto
  then have "got s = butlast (got s) @ [last (got s)]" by simp
  then have "e \<in> set (butlast (got s)) \<or> e = last (got s)"
    using assms(2) by (metis Un_iff insert_iff list.set(2) set_append empty_set empty_iff)
  moreover have "snk (last (got s)) \<noteq> Crash" using assms(1) ne by (simp add: sink_inv_def)
  then have "snk (last (got s)) = Take \<or> snk (last (got s)) = Halt"
    by (cases "snk (last (got s))") simp_all
  ultimately show ?thesis using assms(1) by (auto simp: sink_inv_def)
qed

lemma TransformWithError_correct:
  assumes "actions \<noteq> []" "1 \<le> workers t"
    "\<forall>x\<in>set items. well_typed_err (types t) actions (x, None)"
  shows "\<exists>P. TransformWithError t caps items actions = Some P \<and>
           always_returns P (TransformWithError_outcome t items)
             (\<lambda>r. if \<forall>x\<in>set items. snd (run_actions actions (x, None)) = None
                  then r = (Some (map (\<lambda>x. fst (run_actions actions (x, None))) items), None)
                  else fst r = None \<and> snd r \<noteq> None \<and>
                       (\<exists>x\<in>set items. snd r = snd (run_actions actions (x, None))))"
    (is "\<exists>P. _ \<and> always_returns P _ ?Q")
proof -
  let ?fs = "map (TransformWithError_worker (types t)) actions"
  let ?snk = "TransformWithError_sink (types t) (length items)"
  let ?s0 = "TransformWithError_net t caps items actions"
  let ?P = "\<lparr>stages = ?fs, sink = ?snk, init = ?s0\<rparr>"
  let ?ra = "\<lambda>x. run_actions actions (x, None)"
  let ?z = "replicate (length items) (zero (types t))"
  define F where "F i = \<lparr>Index = i, Item = fst (?ra (items ! i)), Err = snd (?ra (items ! i))\<rparr>" for i
  have rd: "ready ?fs ?s0" by (rule TransformWithError_ready [OF assms(1)])
  have feed0: "feed ?s0 = indexed_with_error items" by (simp add: TransformWithError_net_def)
  have wt: "passes ?fs ?snk \<lparr>Index = i, Item = items ! i, Err = None\<rparr> \<and>
            fwd ?fs 0 \<lparr>Index = i, Item = items ! i, Err = None\<rparr> = F i"
    if "i < length items" for i
  proof -
    let ?e = "\<lparr>Index = i, Item = items ! i, Err = None\<rparr>"
    have "well_typed_err (types t) actions (Item ?e, Err ?e)" "Index ?e < length items"
      using assms(3) that by simp_all
    from well_typed_err_passes [OF this] show ?thesis by (simp add: fwd_def F_def)
  qed
  have gd: "\<forall>e\<in>set (feed ?s0). good ?fs ?snk 0 e"
    using wt by (auto simp: feed0 good_def in_indexed_with_error)
  have img: "fwd ?fs 0 ` set (indexed_with_error items) = F ` {..<length items}"
  proof (intro set_eqI iffI)
    fix y assume "y \<in> fwd ?fs 0 ` set (indexed_with_error items)"
    then obtain i where "i < length items" "y = fwd ?fs 0 \<lparr>Index = i, Item = items ! i, Err = None\<rparr>"
      by (auto simp: in_indexed_with_error)
    then show "y \<in> F ` {..<length items}" using wt by simp
  next
    fix y assume "y \<in> F ` {..<length items}"
    then obtain i where i: "i < length items" "y = F i" by auto
    then have "\<lparr>Index = i, Item = items ! i, Err = None\<rparr> \<in> set (indexed_with_error items)"
      unfolding in_indexed_with_error by blast
    moreover have "y = fwd ?fs 0 \<lparr>Index = i, Item = items ! i, Err = None\<rparr>" using wt i by simp
    ultimately show "y \<in> fwd ?fs 0 ` set (indexed_with_error items)" by (rule rev_image_eqI)
  qed
  have ne: "\<forall>k<length (pools ?s0). pools ?s0 ! k \<noteq> []"
    using assms(2) by (auto simp: TransformWithError_net_def)
  have rdy: "fresh ?s0" "shape ?s0" "length ?fs = length (pools ?s0)"
    using rd by (simp_all add: ready_def)
  have main: "\<not> panicked s \<and> (sink_done s \<or> (\<exists>s'. step ?fs ?snk s s')) \<and>
        (\<forall>s'. step ?fs ?snk s s' \<longrightarrow> fuel s' < fuel s) \<and>
        (sink_done s \<longrightarrow> (\<exists>r. TransformWithError_outcome t items s = Returned r \<and> ?Q r))"
    if r: "reach ?fs ?snk ?s0 s" for s
  proof -
    note sr = safe_reach [OF r rd gd]
    have np: "\<not> panicked s" using sr by simp
    have si: "sink_inv ?snk s" using sr by (simp add: inv_def)
    have pr: "sink_done s \<or> (\<exists>s'. step ?fs ?snk s s')"
      using reach_progress [OF r rd np] by blast
    have fu: "\<forall>s'. step ?fs ?snk s s' \<longrightarrow> fuel s' < fuel s"
      using reach_fuel [OF r rd] by blast
    have "set_mset (mset (got s)) \<subseteq> set_mset (image_mset (fwd ?fs 0) (mset (feed ?s0)))"
      by (rule set_mset_mono [OF got_sub [OF r rdy np]])
    then have sub: "set (got s) \<subseteq> F ` {..<length items}" by (simp add: feed0 img)
    have all: "set (got s) = F ` {..<length items}" if "sink_done s" "\<forall>e\<in>set (got s). ?snk e = Take"
    proof -
      have "mset (got s) = image_mset (fwd ?fs 0) (mset (feed ?s0))"
        by (rule got_all [OF r rdy ne np that])
      then have "set (got s) = fwd ?fs 0 ` set (indexed_with_error items)"
        unfolding feed0 by (metis set_image_mset set_mset_mset)
      then show ?thesis by (simp add: img)
    qed
    have res: "?Q (TransformWithError_collect ?z (got s))" if sd: "sink_done s"
    proof (cases "\<forall>x\<in>set items. snd (?ra x) = None")
      case True
      have noerr: "\<forall>e\<in>set (got s). Err e = None"
      proof
        fix e assume "e \<in> set (got s)"
        then obtain i where "i < length items" "e = F i" using sub by auto
        then show "Err e = None" using True by (simp add: F_def)
      qed
      then have tk: "\<forall>e\<in>set (got s). ?snk e = Take"
        using sink_inv_Take_or_last [OF si] by (auto simp: TransformWithError_sink_Halt)
      note a = all [OF sd tk]
      have "Transform_collect (zero (types t)) (length items) (got s) = map (\<lambda>x. fst (?ra x)) items"
      proof (rule collect_general)
        show "\<forall>e\<in>set (got s). Item e = fst (?ra (items ! Index e))"
          using a by (auto simp: F_def)
        show "\<forall>i<length items. \<exists>e\<in>set (got s). Index e = i"
        proof (intro allI impI)
          fix i assume "i < length items"
          then have "F i \<in> set (got s)" using a by simp
          moreover have "Index (F i) = i" by (simp add: F_def)
          ultimately show "\<exists>e\<in>set (got s). Index e = i" by blast
        qed
      qed
      then show ?thesis
        using True collect_no_error [OF noerr, of ?z] by (simp add: Transform_collect_def)
    next
      case False
      then obtain i where i: "i < length items" "snd (?ra (items ! i)) \<noteq> None"
        by (auto simp: in_set_conv_nth)
      have "\<not> (\<forall>e\<in>set (got s). ?snk e = Take)"
      proof
        assume tk: "\<forall>e\<in>set (got s). ?snk e = Take"
        have "F i \<in> set (got s)" using all [OF sd tk] i(1) by simp
        then have "Err (F i) = None" using tk TransformWithError_sink_Take by blast
        then show False using i(2) by (simp add: F_def)
      qed
      then obtain e where e: "e \<in> set (got s)" "?snk e \<noteq> Take" by blast
      have l: "e = last (got s)" "?snk e = Halt"
        using sink_inv_Take_or_last [OF si e(1)] e(2) by blast+
      have ne: "got s \<noteq> []" using e(1) by auto
      have pre: "\<forall>x\<in>set (butlast (got s)). Err x = None"
        using si TransformWithError_sink_Take by (fastforce simp: sink_inv_def)
      have er: "Err e \<noteq> None" using l(2) by (simp add: TransformWithError_sink_Halt)
      have "TransformWithError_collect ?z (butlast (got s) @ [e]) = (None, Err e)"
        by (rule collect_error_last [OF pre er])
      then have c: "TransformWithError_collect ?z (got s) = (None, Err e)" using l(1) ne by simp
      obtain j where j: "j < length items" "e = F j" using sub e(1) by auto
      then have "Err e = snd (?ra (items ! j))" "items ! j \<in> set items" by (simp_all add: F_def)
      then show ?thesis using False c er by auto
    qed
    show ?thesis using np pr fu res by (simp add: TransformWithError_outcome_def)
  qed
  have "always_returns ?P (TransformWithError_outcome t items) ?Q"
    unfolding always_returns_def using main by simp
  then show ?thesis using TransformWithError_some [OF assms(1)] by blast
qed

lemma run_reach: "run fs snk cs s = Some s' \<Longrightarrow> reach fs snk s s'"
proof (induction cs arbitrary: s)
  case Nil
  then show ?case by (simp add: reach_def)
next
  case (Cons c cs)
  then obtain s1 where s1: "exec fs snk c s = Some s1" "run fs snk cs s1 = Some s'"
    by (auto split: option.splits)
  have "step fs snk s s1" using s1(1) unfolding step_def by blast
  moreover have "reach fs snk s1 s'" by (rule Cons.IH [OF s1(2)])
  ultimately show ?case unfolding reach_def by (rule converse_rtranclp_into_rtranclp)
qed

lemmas run_defs = exec_def feeder_step_def feeder_to_def worker_step_def worker_to_def
  worker_to_sink_def closer_step_def sink_step_def deliver_def sink_take_def set_buf_def
  set_worker_def close_chan_def panic_def new_chan_def start_def process_def

lemma t1:
  "\<exists>P s. Transform (NewTransformer (go_types Any_t Any_t) 1) (\<lambda>i. 0) [Nil] [\<lambda>x. x] = Some P \<and>
         run (stages P) (sink P) [Feeder, Worker 0 0] (init P) = Some s \<and>
         Transform_outcome (NewTransformer (go_types Any_t Any_t) 1) [Nil] s = Panic"
  by (simp add: Transform_def NewTransformer_def go_types_def indexed_def Transform_worker_def
      Transform_sink_def Transform_outcome_def run_defs)

lemma t2:
  "\<exists>P s. Transform (NewTransformer (go_types String_t Int_t) 1) (\<lambda>i. 0) [Str ''a'']
           [string_length, string_length] = Some P \<and>
         run (stages P) (sink P) [Feeder, Worker 0 0, WorkerTo 0 0 0] (init P) = Some s \<and>
         Transform_outcome (NewTransformer (go_types String_t Int_t) 1) [Str ''a''] s = Panic"
  by (simp add: Transform_def NewTransformer_def go_types_def indexed_def Transform_worker_def
      Transform_sink_def Transform_outcome_def run_defs)

lemma reach_summary:
  assumes "reach fs snk s0 s" "ready fs s0" "\<forall>e\<in>set (feed s0). good fs snk 0 e"
    "\<forall>k<length (pools s0). pools s0 ! k \<noteq> []"
  shows "\<not> panicked s" "sink_done s \<or> (\<exists>s'. step fs snk s s')"
    "\<forall>s'. step fs snk s s' \<longrightarrow> fuel s' < fuel s" "sink_inv snk s"
    "mset (got s) \<subseteq># image_mset (fwd fs 0) (mset (feed s0))"
    "sink_done s \<Longrightarrow> \<forall>e\<in>set (got s). snk e = Take \<Longrightarrow>
       mset (got s) = image_mset (fwd fs 0) (mset (feed s0))"
proof -
  note sr = safe_reach [OF assms(1,2,3)]
  show np: "\<not> panicked s" using sr by simp
  show "sink_inv snk s" using sr by (simp add: inv_def)
  show "sink_done s \<or> (\<exists>s'. step fs snk s s')"
    using reach_progress [OF assms(1,2) np] by blast
  show "\<forall>s'. step fs snk s s' \<longrightarrow> fuel s' < fuel s"
    using reach_fuel [OF assms(1,2)] by blast
  have rdy: "fresh s0" "shape s0" "length fs = length (pools s0)"
    using assms(2) by (simp_all add: ready_def)
  show "mset (got s) \<subseteq># image_mset (fwd fs 0) (mset (feed s0))"
    by (rule got_sub [OF assms(1) rdy np])
  show "mset (got s) = image_mset (fwd fs 0) (mset (feed s0))"
    if "sink_done s" "\<forall>e\<in>set (got s). snk e = Take"
    by (rule got_all [OF assms(1) rdy assms(4) np that])
qed

lemma TransformChannels_some:
  "actions \<noteq> [] \<Longrightarrow>
   TransformChannels t caps queued items actions =
     Some \<lparr>stages = map (TransformChannels_worker (types t)) actions,
           sink = TransformChannels_sink (types t),
           init = TransformChannels_net t caps queued items actions\<rparr>"
  by (simp add: TransformChannels_def process_def TransformChannels_net_def)

lemma TransformChannels_ready:
  assumes "actions \<noteq> []"
  shows "ready (map (TransformChannels_worker (types t)) actions)
           (TransformChannels_net t caps queued items actions)"
proof -
  have "fresh (TransformChannels_net t caps queued items actions)"
    unfolding TransformChannels_net_def by (rule fresh_start) auto
  then show ?thesis using assms
    by (simp add: ready_def shape_def) (simp add: TransformChannels_net_def)
qed

lemma well_typed_passes_chan:
  assumes "well_typed tp actions x"
  shows "passes (map (TransformChannels_worker tp) actions) (TransformChannels_sink tp) x \<and>
         fold (\<lambda>f x. the (f x)) (map (TransformChannels_worker tp) actions) x = apply_all actions x"
  using assms
proof (induction actions arbitrary: x)
  case Nil
  then show ?case by (simp add: TransformChannels_sink_def apply_all_def)
next
  case (Cons a as)
  have w: "TransformChannels_worker tp a x = Some (a x)"
    using Cons.prems by (simp add: TransformChannels_worker_def)
  have "well_typed tp as (a x)" using Cons.prems by simp
  from Cons.IH [OF this] show ?case using w by (simp add: apply_all_def)
qed

lemma TransformChannels_sink_not_Halt: "TransformChannels_sink tp e \<noteq> Halt"
  by (simp add: TransformChannels_sink_def)

lemma TransformChannels_correct:
  assumes "actions \<noteq> []" "1 \<le> workers t" "\<forall>x\<in>set items. well_typed (types t) actions x"
  shows "\<exists>P. TransformChannels t caps queued items actions = Some P \<and>
           always_returns P TransformChannels_outcome
             (\<lambda>r. mset r = image_mset (apply_all actions) (mset items))"
proof -
  let ?fs = "map (TransformChannels_worker (types t)) actions"
  let ?snk = "TransformChannels_sink (types t)"
  let ?s0 = "TransformChannels_net t caps queued items actions"
  let ?P = "\<lparr>stages = ?fs, sink = ?snk, init = ?s0\<rparr>"
  have rd: "ready ?fs ?s0" by (rule TransformChannels_ready [OF assms(1)])
  have feed0: "feed ?s0 = items" by (simp add: TransformChannels_net_def)
  have wt: "passes ?fs ?snk x \<and> fwd ?fs 0 x = apply_all actions x" if "x \<in> set items" for x
    using well_typed_passes_chan [of "types t" actions x] assms(3) that by (simp add: fwd_def)
  have gd: "\<forall>e\<in>set (feed ?s0). good ?fs ?snk 0 e" using wt by (simp add: feed0 good_def)
  have ne: "\<forall>k<length (pools ?s0). pools ?s0 ! k \<noteq> []"
    using assms(2) by (auto simp: TransformChannels_net_def)
  have img: "image_mset (fwd ?fs 0) (mset items) = image_mset (apply_all actions) (mset items)"
    by (rule image_mset_cong) (simp add: wt)
  have main: "\<not> panicked s \<and> (sink_done s \<or> (\<exists>s'. step ?fs ?snk s s')) \<and>
        (\<forall>s'. step ?fs ?snk s s' \<longrightarrow> fuel s' < fuel s) \<and>
        (sink_done s \<longrightarrow> (\<exists>r. TransformChannels_outcome s = Returned r \<and>
            mset r = image_mset (apply_all actions) (mset items)))"
    if r: "reach ?fs ?snk ?s0 s" for s
  proof -
    note rs = reach_summary [OF r rd gd ne]
    have tk: "\<forall>e\<in>set (got s). ?snk e = Take"
      by (rule sink_inv_all_Take [OF rs(4) TransformChannels_sink_not_Halt])
    have "mset (got s) = image_mset (apply_all actions) (mset items)" if "sink_done s"
      using rs(6) [OF that tk] by (simp add: feed0 img)
    then show ?thesis using rs(1,2,3) by (simp add: TransformChannels_outcome_def)
  qed
  have "always_returns ?P TransformChannels_outcome
          (\<lambda>r. mset r = image_mset (apply_all actions) (mset items))"
    unfolding always_returns_def using main by simp
  then show ?thesis using TransformChannels_some [OF assms(1)] by blast
qed

lemma TransformChannelsWithError_some:
  "actions \<noteq> [] \<Longrightarrow>
   TransformChannelsWithError t caps queued items actions =
     Some \<lparr>stages = map (TransformChannelsWithError_worker (types t)) actions,
           sink = TransformChannelsWithError_sink (types t),
           init = TransformChannelsWithError_net t caps queued items actions\<rparr>"
  by (simp add: TransformChannelsWithError_def process_def TransformChannelsWithError_net_def)

lemma TransformChannelsWithError_ready:
  assumes "actions \<noteq> []"
  shows "ready (map (TransformChannelsWithError_worker (types t)) actions)
           (TransformChannelsWithError_net t caps queued items actions)"
proof -
  have "fresh (TransformChannelsWithError_net t caps queued items actions)"
    unfolding TransformChannelsWithError_net_def by (rule fresh_start) auto
  then show ?thesis using assms
    by (simp add: ready_def shape_def) (simp add: TransformChannelsWithError_net_def)
qed

lemma well_typed_err_passes_chan:
  assumes "well_typed_err tp actions (SItem e, SErr e)"
  shows "passes (map (TransformChannelsWithError_worker tp) actions)
           (TransformChannelsWithError_sink tp) e \<and>
         fold (\<lambda>f x. the (f x)) (map (TransformChannelsWithError_worker tp) actions) e
           = \<lparr>SItem = fst (run_actions actions (SItem e, SErr e)),
              SErr = snd (run_actions actions (SItem e, SErr e))\<rparr>"
  using assms
proof (induction actions arbitrary: e)
  case Nil
  then show ?case by (auto simp: TransformChannelsWithError_sink_def)
next
  case (Cons a as)
  let ?e' = "\<lparr>SItem = fst (a (SItem e)), SErr = snd (a (SItem e))\<rparr>"
  have w: "TransformChannelsWithError_worker tp a e = Some ?e'"
    using Cons.prems(1) by (simp add: TransformChannelsWithError_worker_def split: prod.splits)
  have "well_typed_err tp as (SItem ?e', SErr ?e')" using Cons.prems by simp
  from Cons.IH [OF this] show ?case using w by simp
qed

lemma forwarded_no_error:
  "\<forall>e\<in>set es. SErr e = None \<Longrightarrow> forwarded es = (map SItem es, [])"
  by (induction es) simp_all

lemma forwarded_error:
  "\<forall>e\<in>set pre. SErr e = None \<Longrightarrow> SErr e = Some err \<Longrightarrow>
   forwarded (pre @ e # rest) = (map SItem pre, [err])"
  by (induction pre) simp_all


lemma TransformChannelsWithError_sink_Take:
  "TransformChannelsWithError_sink tp e = Take \<Longrightarrow> SErr e = None"
  by (simp add: TransformChannelsWithError_sink_def split: if_splits)

lemma TransformChannelsWithError_sink_Halt:
  "TransformChannelsWithError_sink tp e = Halt \<longleftrightarrow> SErr e \<noteq> None"
  by (simp add: TransformChannelsWithError_sink_def)

lemma TransformChannelsWithError_correct:
  assumes "actions \<noteq> []" "1 \<le> workers t"
    "\<forall>x\<in>set items. well_typed_err (types t) actions (x, None)"
  shows "\<exists>P. TransformChannelsWithError t caps queued items actions = Some P \<and>
           always_returns P TransformChannelsWithError_outcome
             (\<lambda>r. if \<forall>x\<in>set items. snd (run_actions actions (x, None)) = None
                  then mset (fst r) = image_mset (\<lambda>x. fst (run_actions actions (x, None))) (mset items)
                       \<and> snd r = []
                  else mset (fst r) \<subseteq># image_mset (\<lambda>x. fst (run_actions actions (x, None)))
                                          (filter_mset (\<lambda>x. snd (run_actions actions (x, None)) = None)
                                             (mset items))
                       \<and> (\<exists>x\<in>set items. \<exists>err. snd (run_actions actions (x, None)) = Some err
                                                \<and> snd r = [err]))"
    (is "\<exists>P. _ \<and> always_returns P _ ?Q")
proof -
  let ?fs = "map (TransformChannelsWithError_worker (types t)) actions"
  let ?snk = "TransformChannelsWithError_sink (types t)"
  let ?s0 = "TransformChannelsWithError_net t caps queued items actions"
  let ?P = "\<lparr>stages = ?fs, sink = ?snk, init = ?s0\<rparr>"
  let ?ra = "\<lambda>x. run_actions actions (x, None)"
  define F where "F x = \<lparr>SItem = fst (?ra x), SErr = snd (?ra x)\<rparr>" for x
  have rd: "ready ?fs ?s0" by (rule TransformChannelsWithError_ready [OF assms(1)])
  have feed0: "feed ?s0 = map (\<lambda>item. \<lparr>SItem = item, SErr = None\<rparr>) items"
    by (simp add: TransformChannelsWithError_net_def)
  have wt: "passes ?fs ?snk \<lparr>SItem = x, SErr = None\<rparr> \<and> fwd ?fs 0 \<lparr>SItem = x, SErr = None\<rparr> = F x"
    if "x \<in> set items" for x
    using well_typed_err_passes_chan [of "types t" actions "\<lparr>SItem = x, SErr = None\<rparr>"]
      assms(3) that by (simp add: fwd_def F_def)
  have gd: "\<forall>e\<in>set (feed ?s0). good ?fs ?snk 0 e" using wt by (auto simp: feed0 good_def)
  have ne: "\<forall>k<length (pools ?s0). pools ?s0 ! k \<noteq> []"
    using assms(2) by (auto simp: TransformChannelsWithError_net_def)
  have img: "image_mset (fwd ?fs 0) (mset (feed ?s0)) = image_mset F (mset items)"
    unfolding feed0 mset_map image_mset.compositionality
    by (rule image_mset_cong) (simp add: wt)
  have main: "\<not> panicked s \<and> (sink_done s \<or> (\<exists>s'. step ?fs ?snk s s')) \<and>
        (\<forall>s'. step ?fs ?snk s s' \<longrightarrow> fuel s' < fuel s) \<and>
        (sink_done s \<longrightarrow> (\<exists>r. TransformChannelsWithError_outcome s = Returned r \<and> ?Q r))"
    if r: "reach ?fs ?snk ?s0 s" for s
  proof -
    note rs = reach_summary [OF r rd gd ne]
    have sub: "mset (got s) \<subseteq># image_mset F (mset items)" using rs(5) by (simp add: img)
    have all: "mset (got s) = image_mset F (mset items)"
      if "sink_done s" "\<forall>e\<in>set (got s). ?snk e = Take"
      using rs(6) [OF that] by (simp add: img)
    have res: "?Q (forwarded (got s))" if sd: "sink_done s"
    proof (cases "\<forall>x\<in>set items. snd (?ra x) = None")
      case True
      have noerr: "\<forall>e\<in>set (got s). SErr e = None"
      proof
        fix e assume "e \<in> set (got s)"
        then have "e \<in># image_mset F (mset items)" using sub by (meson mset_subset_eqD set_mset_mset in_multiset_in_set)
        then obtain x where "x \<in> set items" "e = F x" by auto
        then show "SErr e = None" using True by (simp add: F_def)
      qed
      then have tk: "\<forall>e\<in>set (got s). ?snk e = Take"
        using sink_inv_Take_or_last [OF rs(4)] by (auto simp: TransformChannelsWithError_sink_Halt)
      have "mset (map SItem (got s)) = image_mset (\<lambda>x. fst (?ra x)) (mset items)"
        unfolding mset_map all [OF sd tk] image_mset.compositionality
        by (rule image_mset_cong) (simp add: F_def)
      then show ?thesis using True forwarded_no_error [OF noerr] by simp
    next
      case False
      then obtain x where x: "x \<in> set items" "snd (?ra x) \<noteq> None" by auto
      have "\<not> (\<forall>e\<in>set (got s). ?snk e = Take)"
      proof
        assume tk: "\<forall>e\<in>set (got s). ?snk e = Take"
        have "F x \<in># image_mset F (mset items)" using x(1) by simp
        then have "F x \<in> set (got s)" using all [OF sd tk] by (metis set_mset_mset)
        then have "SErr (F x) = None" using tk TransformChannelsWithError_sink_Take by blast
        then show False using x(2) by (simp add: F_def)
      qed
      then obtain e where e: "e \<in> set (got s)" "?snk e \<noteq> Take" by blast
      have l: "e = last (got s)" "?snk e = Halt"
        using sink_inv_Take_or_last [OF rs(4) e(1)] e(2) by blast+
      have gne: "got s \<noteq> []" using e(1) by auto
      have pre: "\<forall>x\<in>set (butlast (got s)). SErr x = None"
        using rs(4) TransformChannelsWithError_sink_Take by (fastforce simp: sink_inv_def)
      obtain err where er: "SErr e = Some err"
        using l(2) by (auto simp: TransformChannelsWithError_sink_Halt)
      have g: "got s = butlast (got s) @ [e]" using l(1) gne by simp
      have "forwarded (butlast (got s) @ e # []) = (map SItem (butlast (got s)), [err])"
        by (rule forwarded_error [OF pre er])
      then have c: "forwarded (got s) = (map SItem (butlast (got s)), [err])" using g by simp
      have "e \<in># image_mset F (mset items)" using sub e(1) by (meson mset_subset_eqD in_multiset_in_set)
      then obtain y where y: "y \<in> set items" "e = F y" by auto
      then have ye: "snd (?ra y) = Some err" using er by (simp add: F_def)
      have "mset (butlast (got s)) \<subseteq># filter_mset (\<lambda>e. SErr e = None) (mset (got s))"
      proof -
        have "filter_mset (\<lambda>e. SErr e = None) (mset (got s))
              = filter_mset (\<lambda>e. SErr e = None) (mset (butlast (got s) @ [e]))"
          using g by simp
        also have "\<dots> = mset (butlast (got s))" using pre er by (simp add: filter_mset_eq_conv)
        finally show ?thesis by simp
      qed
      also have "\<dots> \<subseteq># filter_mset (\<lambda>e. SErr e = None) (image_mset F (mset items))"
        by (rule multiset_filter_mono [OF sub])
      also have "\<dots> = image_mset F (filter_mset (\<lambda>x. snd (?ra x) = None) (mset items))"
        by (simp add: filter_mset_image_mset F_def)
      finally have "image_mset SItem (mset (butlast (got s)))
            \<subseteq># image_mset SItem (image_mset F (filter_mset (\<lambda>x. snd (?ra x) = None) (mset items)))"
        by (rule image_mset_subseteq_mono)
      then have "mset (map SItem (butlast (got s)))
            \<subseteq># image_mset (\<lambda>x. fst (?ra x)) (filter_mset (\<lambda>x. snd (?ra x) = None) (mset items))"
        by (simp add: image_mset.compositionality comp_def F_def)
      then show ?thesis using False c y(1) ye by auto
    qed
    show ?thesis using rs(1,2,3) res by (simp add: TransformChannelsWithError_outcome_def)
  qed
  have "always_returns ?P TransformChannelsWithError_outcome ?Q"
    unfolding always_returns_def using main by simp
  then show ?thesis using TransformChannelsWithError_some [OF assms(1)] by blast
qed

























section \<open>Construction and the empty action list\<close>

text \<open>
  C4, as the code has it: \<open>NewTransformer\<close> has no error result and stores whatever width it
  is given; every width, positive or not, yields a transformer configured with it.
\<close>

theorem NewTransformer_total: "workers (NewTransformer tp w) = w \<and> types (NewTransformer tp w) = tp"
  by (simp add: NewTransformer_def)

text \<open>
  C4 fails as stated: for the width 0 the caller is handed a transformer configured with
  a width that is not positive.
\<close>

theorem NewTransformer_zero_counterexample:
  "workers (NewTransformer (go_types String_t String_t) 0) \<le> 0"
  by (simp add: NewTransformer_def)

text \<open>
  C3 at a concrete input: \<open>Transform\<close> with no action on the slice \<open>["a"]\<close> does not start a
  pipeline, \<open>process\<close> panics on \<open>channels[-1]\<close>.
\<close>

theorem Transform_no_actions_panics:
  "Transform (NewTransformer (go_types String_t String_t) 1) caps [Str ''a''] [] = None"
  by (simp add: Transform_def process_def)


section \<open>Order preservation and composition\<close>

text \<open>
  C1, with the condition it needs: for every slice \<open>xs\<close>, every single action \<open>f\<close> and every
  width \<open>W \<ge> 1\<close>, if each item of \<open>xs\<close> passes the assertion \<open>.(Input)\<close> of the worker and
  each result \<open>f(xs[i])\<close> passes the assertion \<open>.(Output)\<close> of the collector, then every
  interleaving of \<open>Transform(xs, f)\<close> on \<open>NewTransformer(W)\<close> ends, without a panic, by returning
  the slice \<open>map f xs\<close>: same length, position \<open>i\<close> holding \<open>f(xs[i])\<close>, whatever \<open>W\<close> and the
  channel capacities are.
\<close>

theorem Transform_single_action:
  assumes "1 \<le> W" "\<forall>x\<in>set xs. Input tp x \<and> Output tp (f x)"
  shows "\<exists>P. Transform (NewTransformer tp W) caps xs [f] = Some P \<and>
           always_returns P (Transform_outcome (NewTransformer tp W) xs) (\<lambda>r. r = map f xs)"
proof -
  have "\<forall>x\<in>set xs. well_typed (types (NewTransformer tp W)) [f] x"
    using assms(2) by (simp add: NewTransformer_def)
  moreover have "1 \<le> workers (NewTransformer tp W)" using assms(1) by (simp add: NewTransformer_def)
  moreover have "apply_all [f] = f" by (rule ext) (simp add: apply_all_def)
  ultimately show ?thesis
    using Transform_correct [of "[f]" "NewTransformer tp W" xs caps] by simp
qed

theorem Transform_single_action_witness:
  "\<exists>P. Transform (NewTransformer (go_types String_t String_t) 3) (\<lambda>i. 0)
          [Str ''a'', Str ''b'', Str ''c''] [ToUpper] = Some P \<and>
        always_returns P
          (Transform_outcome (NewTransformer (go_types String_t String_t) 3)
             [Str ''a'', Str ''b'', Str ''c''])
          (\<lambda>r. r = [Str ''A'', Str ''B'', Str ''C''])"
proof -
  have u: "to_upper CHR ''a'' = CHR ''A''" "to_upper CHR ''b'' = CHR ''B''"
    "to_upper CHR ''c'' = CHR ''C''"
    by code_simp+
  show ?thesis
    using Transform_single_action [of 3 "[Str ''a'', Str ''b'', Str ''c'']"
        "go_types String_t String_t" ToUpper "\<lambda>i. 0"]
    by (simp add: go_types_def u)
qed

text \<open>
  C1 fails without that condition. \<open>NewTransformer[any, any](1).Transform([]any{nil}, f)\<close> with
  \<open>f\<close> the identity: the feeder sends the envelope of the nil item, the worker receives it and
  \<open>indexedInput.Item.(Input)\<close> panics on the nil interface value, so the call returns nothing.
\<close>

theorem Transform_single_action_counterexample:
  "\<exists>P s. Transform (NewTransformer (go_types Any_t Any_t) 1) (\<lambda>i. 0) [Nil] [\<lambda>x. x] = Some P \<and>
         run (stages P) (sink P) [Feeder, Worker 0 0] (init P) = Some s \<and>
         Transform_outcome (NewTransformer (go_types Any_t Any_t) 1) [Nil] s = Panic"
  by (simp add: Transform_def NewTransformer_def go_types_def indexed_def Transform_worker_def
      Transform_sink_def Transform_outcome_def run_defs)

text \<open>
  C6, with the condition it needs: for every slice \<open>xs\<close>, every non-empty list of actions and
  every width \<open>W \<ge> 1\<close>, if for each item every value entering a stage passes that stage's
  assertion \<open>.(Input)\<close> and the final value passes the collector's \<open>.(Output)\<close>
  (\<open>well_typed\<close>), then every interleaving of \<open>Transform\<close> ends, without a panic, by returning
  a slice of the length of \<open>xs\<close> whose position \<open>i\<close> holds the actions applied in order to
  \<open>xs[i]\<close>; for the two actions \<open>f\<close> then \<open>g\<close> that is \<open>g \<circ> f\<close>.
\<close>

theorem Transform_composition:
  assumes "1 \<le> W" "actions \<noteq> []" "\<forall>x\<in>set xs. well_typed tp actions x"
  shows "(\<exists>P. Transform (NewTransformer tp W) caps xs actions = Some P \<and>
            always_returns P (Transform_outcome (NewTransformer tp W) xs)
              (\<lambda>r. length r = length xs \<and> (\<forall>i<length xs. r ! i = apply_all actions (xs ! i))))
         \<and> apply_all [f, g] = g \<circ> f"
proof -
  have "\<forall>x\<in>set xs. well_typed (types (NewTransformer tp W)) actions x"
    using assms(3) by (simp add: NewTransformer_def)
  moreover have "1 \<le> workers (NewTransformer tp W)" using assms(1) by (simp add: NewTransformer_def)
  ultimately obtain P where P: "Transform (NewTransformer tp W) caps xs actions = Some P"
    "always_returns P (Transform_outcome (NewTransformer tp W) xs)
       (\<lambda>r. r = map (apply_all actions) xs)"
    using Transform_correct [OF assms(2), of "NewTransformer tp W" xs caps] by blast
  have "always_returns P (Transform_outcome (NewTransformer tp W) xs)
          (\<lambda>r. length r = length xs \<and> (\<forall>i<length xs. r ! i = apply_all actions (xs ! i)))"
    using P(2) unfolding always_returns_def by auto
  moreover have "apply_all [f, g] = g \<circ> f" by (rule ext) (simp add: apply_all_def)
  ultimately show ?thesis using P(1) by blast
qed

theorem Transform_composition_witness:
  "(\<exists>P. Transform (NewTransformer (go_types String_t String_t) 3) (\<lambda>i. 0)
           [Str ''a'', Str ''b'', Str ''c''] [ToUpper, ToLower] = Some P \<and>
         always_returns P
           (Transform_outcome (NewTransformer (go_types String_t String_t) 3)
              [Str ''a'', Str ''b'', Str ''c''])
           (\<lambda>r. length r = 3 \<and> r ! 0 = Str ''a'' \<and> r ! 1 = Str ''b'' \<and> r ! 2 = Str ''c''))
   \<and> apply_all [ToUpper, ToLower] (Str ''b'') = Str ''b''"
proof -
  let ?xs = "[Str ''a'', Str ''b'', Str ''c'']"
  let ?t = "NewTransformer (go_types String_t String_t) 3"
  have v: "apply_all [ToUpper, ToLower] (Str ''a'') = Str ''a''"
    "apply_all [ToUpper, ToLower] (Str ''b'') = Str ''b''"
    "apply_all [ToUpper, ToLower] (Str ''c'') = Str ''c''"
    by code_simp+
  have h1: "1 \<le> (3::int)" by simp
  have h2: "[ToUpper, ToLower] \<noteq> []" by simp
  have h3: "\<forall>x\<in>set ?xs. well_typed (go_types String_t String_t) [ToUpper, ToLower] x"
    by (simp add: go_types_def)
  from Transform_composition [OF h1 h2 h3, of "\<lambda>i. 0" ToUpper ToLower]
  obtain P where P: "Transform ?t (\<lambda>i. 0) ?xs [ToUpper, ToLower] = Some P"
    "always_returns P (Transform_outcome ?t ?xs)
       (\<lambda>r. length r = length ?xs \<and> (\<forall>i<length ?xs. r ! i = apply_all [ToUpper, ToLower] (?xs ! i)))"
    by blast
  have "always_returns P (Transform_outcome ?t ?xs)
          (\<lambda>r. length r = 3 \<and> r ! 0 = Str ''a'' \<and> r ! 1 = Str ''b'' \<and> r ! 2 = Str ''c'')"
  proof (rule always_returns_mono [OF P(2)])
    fix r :: "any list"
    assume a: "length r = length ?xs \<and> (\<forall>i<length ?xs. r ! i = apply_all [ToUpper, ToLower] (?xs ! i))"
    then have "r ! 0 = apply_all [ToUpper, ToLower] (?xs ! 0)"
      "r ! 1 = apply_all [ToUpper, ToLower] (?xs ! 1)"
      "r ! 2 = apply_all [ToUpper, ToLower] (?xs ! 2)"
      by simp_all
    then show "length r = 3 \<and> r ! 0 = Str ''a'' \<and> r ! 1 = Str ''b'' \<and> r ! 2 = Str ''c''"
      using a by (simp add: v)
  qed
  then show ?thesis using P(1) v(2) by blast
qed

text \<open>
  C6 fails without that condition. \<open>NewTransformer[string, int](1).Transform([]string{"a"}, f, g)\<close>
  with \<open>f\<close> and \<open>g\<close> both \<open>func(s string) int { return len(s) }\<close>: the worker of the first stage
  sends the envelope holding the int 1, the worker of the second stage receives it and
  \<open>indexedInput.Item.(Input)\<close> panics, an int not being a string.
\<close>

theorem Transform_composition_counterexample:
  "\<exists>P s. Transform (NewTransformer (go_types String_t Int_t) 1) (\<lambda>i. 0) [Str ''a'']
           [string_length, string_length] = Some P \<and>
         run (stages P) (sink P) [Feeder, Worker 0 0, WorkerTo 0 0 0] (init P) = Some s \<and>
         Transform_outcome (NewTransformer (go_types String_t Int_t) 1) [Str ''a''] s = Panic"
  by (simp add: Transform_def NewTransformer_def go_types_def indexed_def Transform_worker_def
      Transform_sink_def Transform_outcome_def run_defs)


section \<open>A width that is not positive\<close>

text \<open>
  C10: \<open>NewTransformer\<close> accepts every width and stores it. For a width \<open>W \<le> 0\<close> and at least one
  action, the loop \<open>for j := 0; j < workers; j++\<close> starts no worker, so every pool is empty and
  the goroutine \<open>wg.Wait(); close(outputChan)\<close> of every stage can close its channel at once;
  every interleaving of \<open>Transform\<close> ends, without a panic, by returning a slice of the length
  of the input that holds only the zero value of \<open>Output\<close>.
\<close>

theorem Transform_zero_workers:
  assumes "W \<le> 0" "actions \<noteq> []"
  shows "workers (NewTransformer tp W) = W \<and>
         (\<exists>P. Transform (NewTransformer tp W) caps xs actions = Some P \<and>
              (\<forall>k<length actions. pools (init P) ! k = [] \<and>
                 (\<exists>s'. exec (stages P) (sink P) (Closer k) (init P) = Some s' \<and>
                       closed (chans s' ! Suc k))) \<and>
              always_returns P (Transform_outcome (NewTransformer tp W) xs)
                (\<lambda>r. r = replicate (length xs) (zero tp)))"
proof -
  let ?t = "NewTransformer tp W"
  have w: "workers ?t \<le> 0" using assms(1) by (simp add: NewTransformer_def)
  from Transform_idle [OF w assms(2), of caps xs]
  obtain P where P: "Transform ?t caps xs actions = Some P"
    "\<forall>k<length actions. pools (init P) ! k = []"
    "always_returns P (Transform_outcome ?t xs) (\<lambda>r. r = replicate (length xs) (zero (types ?t)))"
    by blast
  have i: "init P = Transform_net ?t caps xs actions"
    using P(1) Transform_some [OF assms(2), of ?t caps xs] by auto
  have c: "\<exists>s'. exec (stages P) (sink P) (Closer k) (init P) = Some s' \<and> closed (chans s' ! Suc k)"
    if "k < length actions" for k
    using that w unfolding i
    by (simp add: Transform_net_def exec_def closer_step_def close_chan_def start_def new_chan_def)
  have "types ?t = tp" by (simp add: NewTransformer_def)
  then show ?thesis using P c by (auto simp: NewTransformer_def)
qed

theorem Transform_zero_workers_witness:
  "workers (NewTransformer (go_types String_t String_t) 0) = 0 \<and>
   (\<exists>P. Transform (NewTransformer (go_types String_t String_t) 0) (\<lambda>i. 0)
          [Str ''a'', Str ''b''] [ToUpper] = Some P \<and>
        pools (init P) ! 0 = [] \<and>
        always_returns P
          (Transform_outcome (NewTransformer (go_types String_t String_t) 0) [Str ''a'', Str ''b''])
          (\<lambda>r. r = [Str [], Str []]))"
proof -
  have "replicate (length [Str ''a'', Str ''b'']) (zero (go_types String_t String_t))
        = [Str [], Str []]"
    by (simp add: go_types_def)
  then show ?thesis
    using Transform_zero_workers [of 0 "[ToUpper]" "go_types String_t String_t" "\<lambda>i. 0"
        "[Str ''a'', Str ''b'']"]
    by auto
qed


section \<open>Errors of actions\<close>

text \<open>
  C5 at a concrete input: \<open>NewTransformer[string, string](1).TransformWithError([]string{"a"},
  errorFunc, upperCase)\<close>. The first action fails on \<open>"a"\<close>, yet every interleaving of the call,
  whatever the channel capacities, ends by returning \<open>(["A"], nil)\<close>: the worker of the second
  stage sends a new envelope with the error of its own call, which is nil, so the collector
  never sees the error of \<open>errorFunc\<close>.
\<close>

theorem TransformWithError_loses_error:
  "snd (errorFunc (Str ''a'')) = Some ''error'' \<and>
   (\<exists>P. TransformWithError (NewTransformer (go_types String_t String_t) 1) caps [Str ''a'']
          [errorFunc, upperCase] = Some P \<and>
        always_returns P
          (TransformWithError_outcome (NewTransformer (go_types String_t String_t) 1) [Str ''a''])
          (\<lambda>r. r = (Some [Str ''A''], None)))"
proof -
  let ?t = "NewTransformer (go_types String_t String_t) 1"
  have u: "to_upper CHR ''a'' = CHR ''A''" by code_simp
  have r: "run_actions [errorFunc, upperCase] (Str ''a'', None) = (Str ''A'', None)"
    by (simp add: errorFunc_def upperCase_def u)
  have "\<forall>x\<in>set [Str ''a'']. well_typed_err (types ?t) [errorFunc, upperCase] (x, None)"
    by (simp add: NewTransformer_def go_types_def errorFunc_def upperCase_def)
  moreover have "1 \<le> workers ?t" by (simp add: NewTransformer_def)
  ultimately obtain P where P: "TransformWithError ?t caps [Str ''a''] [errorFunc, upperCase] = Some P"
    "always_returns P (TransformWithError_outcome ?t [Str ''a''])
       (\<lambda>r. if \<forall>x\<in>set [Str ''a'']. snd (run_actions [errorFunc, upperCase] (x, None)) = None
             then r = (Some (map (\<lambda>x. fst (run_actions [errorFunc, upperCase] (x, None))) [Str ''a'']), None)
             else fst r = None \<and> snd r \<noteq> None \<and>
                  (\<exists>x\<in>set [Str ''a'']. snd r = snd (run_actions [errorFunc, upperCase] (x, None))))"
    using TransformWithError_correct [of "[errorFunc, upperCase]" ?t "[Str ''a'']" caps] by blast
  have "always_returns P (TransformWithError_outcome ?t [Str ''a''])
          (\<lambda>r. r = (Some [Str ''A''], None))"
    by (rule always_returns_mono [OF P(2)])
      (simp add: errorFunc_def upperCase_def u split: if_splits)
  then show ?thesis using P(1) by (auto simp: errorFunc_def)
qed

theorem TransformWithError_loses_error_witness:
  "\<exists>P s. TransformWithError (NewTransformer (go_types String_t String_t) 1) (\<lambda>i. 0) [Str ''a'']
            [errorFunc, upperCase] = Some P \<and>
         run (stages P) (sink P)
           [Feeder, Worker 0 0, WorkerTo 0 0 0, WorkerToSink 0, Feeder, Worker 0 0, Closer 0,
            Worker 1 0, Closer 1, Sink] (init P) = Some s \<and>
         sink_done s \<and>
         TransformWithError_outcome (NewTransformer (go_types String_t String_t) 1) [Str ''a''] s
           = Returned (Some [Str ''A''], None)"
proof -
  let ?t = "NewTransformer (go_types String_t String_t) 1"
  let ?cs = "[Feeder, Worker 0 0, WorkerTo 0 0 0, WorkerToSink 0, Feeder, Worker 0 0, Closer 0,
              Worker 1 0, Closer 1, Sink]"
  from TransformWithError_loses_error [of "\<lambda>i. 0"]
  obtain P where P: "TransformWithError ?t (\<lambda>i. 0) [Str ''a''] [errorFunc, upperCase] = Some P"
    "always_returns P (TransformWithError_outcome ?t [Str ''a'']) (\<lambda>r. r = (Some [Str ''A''], None))"
    by blast
  have "\<exists>s. run (stages P) (sink P) ?cs (init P) = Some s \<and> sink_done s"
    using P(1)
    by (auto simp: TransformWithError_def NewTransformer_def go_types_def indexed_with_error_def
        TransformWithError_worker_def TransformWithError_sink_def errorFunc_def upperCase_def
        run_defs)
  then obtain s where s: "run (stages P) (sink P) ?cs (init P) = Some s" "sink_done s" by blast
  have "reach (stages P) (sink P) (init P) s" by (rule run_reach [OF s(1)])
  then have "TransformWithError_outcome ?t [Str ''a''] s = Returned (Some [Str ''A''], None)"
    using P(2) s(2) unfolding always_returns_def by auto
  then show ?thesis using P(1) s by blast
qed

text \<open>
  C2 at a concrete input. A worker that receives an envelope whose error is set asserts the
  item, calls its action and sends a new envelope with that call's error: the error of the
  earlier stage is overwritten. So in \<open>NewTransformer[string, string](1).
  TransformChannelsWithError(items, errorFunc, upperCase)\<close> with \<open>items\<close> delivering \<open>"a"\<close>,
  every interleaving ends with \<open>"A"\<close> sent on the output channel and nothing on the error
  channel, although the first stage failed.
\<close>

theorem later_stage_overwrites_error:
  "TransformWithError_worker (go_types String_t String_t) upperCase
     \<lparr>Index = 0, Item = Str ''a'', Err = Some ''error''\<rparr>
     = Some \<lparr>Index = 0, Item = Str ''A'', Err = None\<rparr> \<and>
   TransformChannelsWithError_worker (go_types String_t String_t) upperCase
     \<lparr>SItem = Str ''a'', SErr = Some ''error''\<rparr>
     = Some \<lparr>SItem = Str ''A'', SErr = None\<rparr> \<and>
   (\<exists>P. TransformChannelsWithError (NewTransformer (go_types String_t String_t) 1) caps queued
          [Str ''a''] [errorFunc, upperCase] = Some P \<and>
        always_returns P TransformChannelsWithError_outcome (\<lambda>r. r = ([Str ''A''], [])))"
proof -
  let ?t = "NewTransformer (go_types String_t String_t) 1"
  have u: "to_upper CHR ''a'' = CHR ''A''" by code_simp
  have r: "run_actions [errorFunc, upperCase] (Str ''a'', None) = (Str ''A'', None)"
    by (simp add: errorFunc_def upperCase_def u)
  have "\<forall>x\<in>set [Str ''a'']. well_typed_err (types ?t) [errorFunc, upperCase] (x, None)"
    by (simp add: NewTransformer_def go_types_def errorFunc_def upperCase_def)
  moreover have "1 \<le> workers ?t" by (simp add: NewTransformer_def)
  ultimately obtain P where
    P: "TransformChannelsWithError ?t caps queued [Str ''a''] [errorFunc, upperCase] = Some P"
    "always_returns P TransformChannelsWithError_outcome
       (\<lambda>r. if \<forall>x\<in>set [Str ''a'']. snd (run_actions [errorFunc, upperCase] (x, None)) = None
             then mset (fst r) = image_mset (\<lambda>x. fst (run_actions [errorFunc, upperCase] (x, None)))
                                   (mset [Str ''a''])
                  \<and> snd r = []
             else mset (fst r) \<subseteq># image_mset (\<lambda>x. fst (run_actions [errorFunc, upperCase] (x, None)))
                    (filter_mset (\<lambda>x. snd (run_actions [errorFunc, upperCase] (x, None)) = None)
                       (mset [Str ''a'']))
                  \<and> (\<exists>x\<in>set [Str ''a'']. \<exists>err.
                        snd (run_actions [errorFunc, upperCase] (x, None)) = Some err \<and> snd r = [err]))"
    using TransformChannelsWithError_correct [of "[errorFunc, upperCase]" ?t "[Str ''a'']" caps queued]
    by blast
  have "always_returns P TransformChannelsWithError_outcome (\<lambda>r. r = ([Str ''A''], []))"
  proof (rule always_returns_mono [OF P(2)])
    fix r :: "any list \<times> error list"
    assume "if \<forall>x\<in>set [Str ''a'']. snd (run_actions [errorFunc, upperCase] (x, None)) = None
             then mset (fst r) = image_mset (\<lambda>x. fst (run_actions [errorFunc, upperCase] (x, None)))
                                   (mset [Str ''a''])
                  \<and> snd r = []
             else mset (fst r) \<subseteq># image_mset (\<lambda>x. fst (run_actions [errorFunc, upperCase] (x, None)))
                    (filter_mset (\<lambda>x. snd (run_actions [errorFunc, upperCase] (x, None)) = None)
                       (mset [Str ''a'']))
                  \<and> (\<exists>x\<in>set [Str ''a'']. \<exists>err.
                        snd (run_actions [errorFunc, upperCase] (x, None)) = Some err \<and> snd r = [err])"
    then have "mset (fst r) = {#Str ''A''#}" "snd r = []"
      by (simp_all add: errorFunc_def upperCase_def u split: if_splits)
    then have "fst r = [Str ''A'']" "snd r = []" by (simp_all add: mset_single_iff_right)
    then show "r = ([Str ''A''], [])" by (cases r) simp
  qed
  moreover have "TransformWithError_worker (go_types String_t String_t) upperCase
     \<lparr>Index = 0, Item = Str ''a'', Err = Some ''error''\<rparr>
     = Some \<lparr>Index = 0, Item = Str ''A'', Err = None\<rparr>"
    by (simp add: TransformWithError_worker_def go_types_def upperCase_def u)
  moreover have "TransformChannelsWithError_worker (go_types String_t String_t) upperCase
     \<lparr>SItem = Str ''a'', SErr = Some ''error''\<rparr>
     = Some \<lparr>SItem = Str ''A'', SErr = None\<rparr>"
    by (simp add: TransformChannelsWithError_worker_def go_types_def upperCase_def u)
  ultimately show ?thesis using P(1) by blast
qed

theorem later_stage_overwrites_error_witness:
  "\<exists>P s. TransformChannelsWithError (NewTransformer (go_types String_t String_t) 1) (\<lambda>i. 0) 1
            [Str ''a''] [errorFunc, upperCase] = Some P \<and>
         run (stages P) (sink P)
           [Feeder, Worker 0 0, WorkerTo 0 0 0, WorkerToSink 0, Feeder, Worker 0 0, Closer 0,
            Worker 1 0, Closer 1, Sink] (init P) = Some s \<and>
         buf (transformedItems_chan 1 s) = [Str ''A''] \<and> closed (transformedItems_chan 1 s) \<and>
         buf (errors_chan s) = [] \<and> closed (errors_chan s)"
proof -
  let ?t = "NewTransformer (go_types String_t String_t) 1"
  let ?cs = "[Feeder, Worker 0 0, WorkerTo 0 0 0, WorkerToSink 0, Feeder, Worker 0 0, Closer 0,
              Worker 1 0, Closer 1, Sink]"
  from later_stage_overwrites_error [of "\<lambda>i. 0" 1]
  obtain P where P: "TransformChannelsWithError ?t (\<lambda>i. 0) 1 [Str ''a''] [errorFunc, upperCase] = Some P"
    "always_returns P TransformChannelsWithError_outcome (\<lambda>r. r = ([Str ''A''], []))"
    by blast
  have "\<exists>s. run (stages P) (sink P) ?cs (init P) = Some s \<and> sink_done s"
    using P(1)
    by (auto simp: TransformChannelsWithError_def NewTransformer_def go_types_def
        TransformChannelsWithError_worker_def TransformChannelsWithError_sink_def errorFunc_def
        upperCase_def run_defs)
  then obtain s where s: "run (stages P) (sink P) ?cs (init P) = Some s" "sink_done s" by blast
  have "reach (stages P) (sink P) (init P) s" by (rule run_reach [OF s(1)])
  then have "TransformChannelsWithError_outcome s = Returned ([Str ''A''], [])"
    using P(2) s(2) unfolding always_returns_def by auto
  then have "forwarded (got s) = ([Str ''A''], [])"
    using s(2) by (simp add: TransformChannelsWithError_outcome_def)
  then have "buf (transformedItems_chan 1 s) = [Str ''A''] \<and> closed (transformedItems_chan 1 s) \<and>
         buf (errors_chan s) = [] \<and> closed (errors_chan s)"
    using s(2) by (simp add: transformedItems_chan_def errors_chan_def)
  then show ?thesis using P(1) s(1) by blast
qed


section \<open>The channel API\<close>

text \<open>
  C8, with the condition it needs: for \<open>TransformChannels\<close> over a channel that delivers the
  values \<open>items\<close> and is then closed, a single action \<open>f\<close> and a width \<open>W \<ge> 1\<close>, if each value
  passes the worker's assertion \<open>.(Input)\<close> and each result passes \<open>.(Output)\<close> in the forwarding
  goroutine, then every interleaving ends, without a panic, with the returned channel closed
  after it has carried values whose multiset is that of \<open>f\<close> applied to \<open>items\<close>. The order is
  not that of the input: with two workers and the doubling action on \<open>1, 2\<close> there is an
  interleaving in which the channel carries \<open>4\<close> before \<open>2\<close>.
\<close>

theorem TransformChannels_multiset:
  assumes "1 \<le> W" "\<forall>x\<in>set items. Input tp x \<and> Output tp (f x)"
  shows "(\<exists>P. TransformChannels (NewTransformer tp W) caps queued items [f] = Some P \<and>
            always_returns P TransformChannels_outcome (\<lambda>r. mset r = image_mset f (mset items)))
         \<and> (\<exists>P s. TransformChannels (NewTransformer (go_types Int_t Int_t) 2) (\<lambda>i. 0) 2
                     [Num 1, Num 2] [double] = Some P \<and>
                   run (stages P) (sink P)
                     [Feeder, Feeder, Worker 0 0, Worker 0 1, WorkerToSink 1, WorkerToSink 0,
                      Feeder, Worker 0 0, Worker 0 1, Closer 0, Sink] (init P) = Some s \<and>
                   TransformChannels_outcome s = Returned [Num 4, Num 2])"
proof -
  let ?t = "NewTransformer tp W"
  have "\<forall>x\<in>set items. well_typed (types ?t) [f] x"
    using assms(2) by (simp add: NewTransformer_def)
  moreover have "1 \<le> workers ?t" using assms(1) by (simp add: NewTransformer_def)
  moreover have "apply_all [f] = f" by (rule ext) (simp add: apply_all_def)
  ultimately have "\<exists>P. TransformChannels ?t caps queued items [f] = Some P \<and>
            always_returns P TransformChannels_outcome (\<lambda>r. mset r = image_mset f (mset items))"
    using TransformChannels_correct [of "[f]" ?t items caps queued] by simp
  moreover have "\<exists>P s. TransformChannels (NewTransformer (go_types Int_t Int_t) 2) (\<lambda>i. 0) 2
                     [Num 1, Num 2] [double] = Some P \<and>
                   run (stages P) (sink P)
                     [Feeder, Feeder, Worker 0 0, Worker 0 1, WorkerToSink 1, WorkerToSink 0,
                      Feeder, Worker 0 0, Worker 0 1, Closer 0, Sink] (init P) = Some s \<and>
                   TransformChannels_outcome s = Returned [Num 4, Num 2]"
    by (simp add: TransformChannels_def NewTransformer_def go_types_def TransformChannels_worker_def
        TransformChannels_sink_def TransformChannels_outcome_def run_defs numeral_2_eq_2)
  ultimately show ?thesis by blast
qed

theorem TransformChannels_multiset_witness:
  "\<exists>P. TransformChannels (NewTransformer (go_types Int_t Int_t) 4) (\<lambda>i. 0) 9
          [Num 1, Num 2, Num 3, Num 4, Num 5, Num 6, Num 7, Num 8, Num 9] [double] = Some P \<and>
        always_returns P TransformChannels_outcome
          (\<lambda>r. mset r = mset [Num 2, Num 4, Num 6, Num 8, Num 10, Num 12, Num 14, Num 16, Num 18])"
proof -
  let ?xs = "[Num 1, Num 2, Num 3, Num 4, Num 5, Num 6, Num 7, Num 8, Num 9]"
  have h1: "1 \<le> (4::int)" by simp
  have h2: "\<forall>x\<in>set ?xs. Input (go_types Int_t Int_t) x \<and> Output (go_types Int_t Int_t) (double x)"
    by (simp add: go_types_def)
  from TransformChannels_multiset [OF h1 h2, of "\<lambda>i. 0" 9]
  obtain P where P: "TransformChannels (NewTransformer (go_types Int_t Int_t) 4) (\<lambda>i. 0) 9 ?xs [double]
      = Some P"
    "always_returns P TransformChannels_outcome (\<lambda>r. mset r = image_mset double (mset ?xs))"
    by blast
  have "always_returns P TransformChannels_outcome
          (\<lambda>r. mset r = mset [Num 2, Num 4, Num 6, Num 8, Num 10, Num 12, Num 14, Num 16, Num 18])"
    by (rule always_returns_mono [OF P(2)]) simp
  then show ?thesis using P(1) by blast
qed

text \<open>
  C8 fails without that condition. \<open>NewTransformer[any, any](1).TransformChannels(items, f)\<close>
  with \<open>items\<close> delivering a nil value and \<open>f\<close> the identity: the worker receives the value and
  \<open>indexedInput.(Input)\<close> panics on the nil interface value; nothing is received from the
  returned channel.
\<close>

theorem TransformChannels_multiset_counterexample:
  "\<exists>P s. TransformChannels (NewTransformer (go_types Any_t Any_t) 1) (\<lambda>i. 0) 1 [Nil]
            [\<lambda>x. x] = Some P \<and>
         run (stages P) (sink P) [Feeder, Worker 0 0] (init P) = Some s \<and>
         TransformChannels_outcome s = Panic"
  by (simp add: TransformChannels_def NewTransformer_def go_types_def TransformChannels_worker_def
      TransformChannels_sink_def TransformChannels_outcome_def run_defs)





section \<open>Type assertions\<close>




end
